theory Spec2Isabelle
  imports Main "HOL-Library.Sublist"
begin

section \<open>Strings\<close>

text \<open>
  JavaScript strings are modelled as \<^typ>\<open>string\<close>, one \<^typ>\<open>char\<close> per character, for
  ASCII text: \<open>toLowerCase\<close> maps \<open>A\<close>..\<open>Z\<close> to \<open>a\<close>..\<open>z\<close>, and the white space of
  \<open>\s\<close> and \<open>trim\<close> is tab, line feed, vertical tab, form feed, carriage return and space.
\<close>

definition lower_char :: "char \<Rightarrow> char" where
  "lower_char c =
     (case map_of (zip ''ABCDEFGHIJKLMNOPQRSTUVWXYZ'' ''abcdefghijklmnopqrstuvwxyz'') c of
        Some l \<Rightarrow> l
      | None \<Rightarrow> c)"

definition toLowerCase :: "string \<Rightarrow> string" where
  "toLowerCase s = map lower_char s"

definition is_space :: "char \<Rightarrow> bool" where
  "is_space c = (c \<in> set [CHR 0x09, CHR 0x0A, CHR 0x0B, CHR 0x0C, CHR 0x0D, CHR '' ''])"

text \<open>\<open>s.includes(q)\<close>: \<open>q\<close> occurs in \<open>s\<close> as a contiguous substring.\<close>

fun str_includes :: "string \<Rightarrow> string \<Rightarrow> bool" where
  "str_includes [] q = (q = [])"
| "str_includes (c # cs) q = (prefix q (c # cs) \<or> str_includes cs q)"

text \<open>\<open>s.indexOf(q)\<close>: the first index at which \<open>q\<close> occurs, \<open>None\<close> for \<open>-1\<close>.\<close>

fun indexOf :: "string \<Rightarrow> string \<Rightarrow> nat option" where
  "indexOf [] q = (if q = [] then Some 0 else None)"
| "indexOf (c # cs) q =
     (if prefix q (c # cs) then Some 0 else map_option Suc (indexOf cs q))"

text \<open>\<open>s.split(/\s+/).filter(term => term.length > 0)\<close>: the maximal runs of non-space
  characters, in order.\<close>

fun split_words :: "string \<Rightarrow> string \<Rightarrow> string list" where
  "split_words cur [] = (if cur = [] then [] else [cur])"
| "split_words cur (c # cs) =
     (if is_space c then (if cur = [] then split_words [] cs else cur # split_words [] cs)
      else split_words (cur @ [c]) cs)"

definition words_of :: "string \<Rightarrow> string list" where
  "words_of s = split_words [] s"

text \<open>\<open>s.split("\n")\<close> (never empty: the empty string splits into one empty line) and
  \<open>lines.join("\n")\<close>.\<close>

fun split_lines :: "string \<Rightarrow> string \<Rightarrow> string list" where
  "split_lines cur [] = [cur]"
| "split_lines cur (c # cs) =
     (if c = CHR 0x0A then cur # split_lines [] cs else split_lines (cur @ [c]) cs)"

definition lines_of :: "string \<Rightarrow> string list" where
  "lines_of s = split_lines [] s"

fun join_lines :: "string list \<Rightarrow> string" where
  "join_lines [] = []"
| "join_lines [l] = l"
| "join_lines (l # ls) = l @ [CHR 0x0A] @ join_lines ls"

section \<open>Deprecation manager (lib/deprecation-manager.js)\<close>

record deprecation_info =
  name :: string
  status :: string
  since :: "string option"
  reason :: "string option"
  modernAlternative :: "string option"
  category :: "string option"
  severity :: string
  deprecationGuideLink :: "string option"

text \<open>The two maps of the class, keyed by lower-case name: \<open>deprecations\<close> (filled from
  the documentation) and \<open>knownDeprecations\<close> (the four hard-coded entries).\<close>

record deprecation_manager =
  deprecations :: "string \<rightharpoonup> deprecation_info"
  knownDeprecations :: "string \<rightharpoonup> deprecation_info"

definition known_ArrayProxy :: deprecation_info where
  "known_ArrayProxy = \<lparr>name = ''ArrayProxy'', status = ''deprecated'', since = None,
     reason = Some ''Native Proxy is now available in all supported environments'',
     modernAlternative = Some ''Use tracked properties and native arrays for reactive data'',
     category = Some ''legacy-proxy'', severity = ''warning'', deprecationGuideLink = None\<rparr>"

definition known_ObjectProxy :: deprecation_info where
  "known_ObjectProxy = \<lparr>name = ''ObjectProxy'', status = ''deprecated'', since = None,
     reason = Some ''Native Proxy is now available in all supported environments'',
     modernAlternative = Some ''Use tracked properties with plain objects'',
     category = Some ''legacy-proxy'', severity = ''warning'', deprecationGuideLink = None\<rparr>"

definition known_PromiseProxyMixin :: deprecation_info where
  "known_PromiseProxyMixin = \<lparr>name = ''PromiseProxyMixin'', status = ''deprecated'', since = None,
     reason = Some ''Native Proxy is now available in all supported environments'',
     modernAlternative =
       Some ''Use ember-async-data or ember-concurrency with tracked properties'',
     category = Some ''legacy-proxy'', severity = ''warning'', deprecationGuideLink = None\<rparr>"

definition known_Evented :: deprecation_info where
  "known_Evented = \<lparr>name = ''Evented'', status = ''deprecated'', since = None,
     reason = Some ''Legacy event system from pre-modern Ember'',
     modernAlternative =
       Some ''Use native event system or ember-concurrency for complex flows'',
     category = Some ''legacy-events'', severity = ''info'', deprecationGuideLink = None\<rparr>"

text \<open>The constructor.\<close>

definition new_DeprecationManager :: deprecation_manager where
  "new_DeprecationManager =
     \<lparr>deprecations = Map.empty,
      knownDeprecations =
        [''arrayproxy'' \<mapsto> known_ArrayProxy, ''objectproxy'' \<mapsto> known_ObjectProxy,
         ''promiseproxymixin'' \<mapsto> known_PromiseProxyMixin, ''evented'' \<mapsto> known_Evented]\<rparr>"

text \<open>\<open>if (!name) return false\<close>: the empty string is falsy.\<close>

definition isDeprecated :: "deprecation_manager \<Rightarrow> string \<Rightarrow> bool" where
  "isDeprecated m nm =
     (if nm = [] then False
      else (let lowerName = toLowerCase nm
            in deprecations m lowerName \<noteq> None \<or> knownDeprecations m lowerName \<noteq> None))"

text \<open>\<open>this.deprecations.get(lowerName) || this.knownDeprecations.get(lowerName) || null\<close>;
  the stored values are objects, hence truthy.\<close>

definition getDeprecationInfo :: "deprecation_manager \<Rightarrow> string \<Rightarrow> deprecation_info option" where
  "getDeprecationInfo m nm =
     (if nm = [] then None
      else (let lowerName = toLowerCase nm
            in case deprecations m lowerName of
                 Some d \<Rightarrow> Some d
               | None \<Rightarrow> knownDeprecations m lowerName))"

text \<open>\<open>if (!name || !info) return\<close>; \<open>None\<close> is a \<open>null\<close> info.\<close>

definition registerDeprecation ::
  "deprecation_manager \<Rightarrow> string \<Rightarrow> deprecation_info option \<Rightarrow> deprecation_manager" where
  "registerDeprecation m nm info =
     (case info of
        None \<Rightarrow> m
      | Some d \<Rightarrow>
          if nm = [] then m
          else m\<lparr>deprecations := (deprecations m)(toLowerCase nm \<mapsto> d)\<rparr>)"

section \<open>Search configuration (lib/config.js)\<close>

text \<open>
  \<open>config.js\<close> is not among the sources: the constants of \<open>SEARCH_CONFIG\<close> that the
  service reads are the fields of this record, and every function below takes the
  configuration as an argument. The scores are integers; \<open>Math.floor(a / b)\<close> is \<open>div\<close>,
  for a divisor other than zero.
\<close>

record search_config =
  EXACT_PHRASE_BONUS :: int
  TITLE_MATCH_BONUS :: int
  TERM_MATCH_WEIGHT :: int
  ALL_TERMS_BONUS :: int
  PROXIMITY_THRESHOLD :: int
  PROXIMITY_BONUS_DIVISOR :: int
  MIN_SCORE :: int
  MIN_SCORE_SINGLE_TERM :: int
  BP_TERM_MATCH_WEIGHT :: int
  BP_ALL_TERMS_BONUS :: int
  BP_STRONG_KEYWORD_WEIGHT :: int
  BP_WEAK_KEYWORD_WEIGHT :: int
  BP_MIN_THRESHOLD :: int
  MAX_BEST_PRACTICES :: int

text \<open>Sample values, used where a configuration has to be concrete: the best-practice
  weights and the minimum score are those of the repository's development notes and
  tests (10, 20, 5, 2, 15 and 10), as is the cap of five best practices; the others are
  chosen.\<close>

definition sample_config :: search_config where
  "sample_config =
     \<lparr>EXACT_PHRASE_BONUS = 50, TITLE_MATCH_BONUS = 15, TERM_MATCH_WEIGHT = 5,
      ALL_TERMS_BONUS = 20, PROXIMITY_THRESHOLD = 100, PROXIMITY_BONUS_DIVISOR = 10,
      MIN_SCORE = 10, MIN_SCORE_SINGLE_TERM = 15,
      BP_TERM_MATCH_WEIGHT = 10, BP_ALL_TERMS_BONUS = 20, BP_STRONG_KEYWORD_WEIGHT = 5,
      BP_WEAK_KEYWORD_WEIGHT = 2, BP_MIN_THRESHOLD = 15, MAX_BEST_PRACTICES = 5\<rparr>"

section \<open>The built-in RegExp and extractTitle\<close>

text \<open>
  \<open>search\<close> builds a regular expression from every query term,
  \<open>(content.match(new RegExp(term, "gi")) || []).length\<close>, and the constructor throws a
  \<open>SyntaxError\<close> on a malformed pattern. The scoring loop below takes this operation,
  and \<open>extractTitle\<close>, as arguments (of types \<open>regexp_count\<close> and \<open>title_of\<close>), so
  that what is proved for every query holds whatever they compute; \<open>RegExp_count\<close> and
  \<open>extractTitle\<close> below are their models on the inputs that are evaluated.

  The failures: \<open>SyntaxError\<close>, thrown by the \<open>RegExp\<close> constructor; \<open>TypeError\<close>,
  thrown by a call of something that is not a function; \<open>NotModelled\<close>, which marks an
  input on which a model below is silent and is not a behaviour of the program.
\<close>

datatype failure = SyntaxError | TypeError | NotModelled

type_synonym regexp_count = "string \<Rightarrow> string \<Rightarrow> failure + nat"

type_synonym title_of = "string \<Rightarrow> failure + string"

text \<open>The number of non-overlapping occurrences of a literal pattern, scanning from the
  left as a global match does; \<open>skip\<close> characters of the last match are still to pass.\<close>

fun count_matches :: "nat \<Rightarrow> string \<Rightarrow> string \<Rightarrow> nat" where
  "count_matches skip pat [] = (if pat = [] \<and> skip = 0 then 1 else 0)"
| "count_matches skip pat (c # cs) =
     (if skip = 0 \<and> prefix pat (c # cs) then Suc (count_matches (length pat - 1) pat cs)
      else count_matches (skip - 1) pat cs)"

text \<open>The syntax characters of a pattern: \<open>^ $ \ . * + ? ( ) [ ] { } |\<close>.\<close>

definition syntax_chars :: "char list" where
  "syntax_chars =
     [CHR ''^'', CHR ''$'', CHR 0x5C, CHR ''.'', CHR ''*'', CHR ''+'', CHR ''?'', CHR ''('',
      CHR '')'', CHR ''['', CHR '']'', CHR ''{'', CHR ''}'', CHR ''|'']"

text \<open>Patterns the constructor rejects: one that starts with a quantifier (nothing to
  repeat), one that opens a group and has no \<open>)\<close>, and one that opens a character class
  and has no \<open>]\<close> (with no backslash and, for the group, no class that could quote the
  opening character).\<close>

definition rejected_pattern :: "string \<Rightarrow> bool" where
  "rejected_pattern pat =
     ((case pat of [] \<Rightarrow> False | c # _ \<Rightarrow> c \<in> set [CHR ''*'', CHR ''+'', CHR ''?''])
      \<or> (CHR ''('' \<in> set pat \<and> CHR '')'' \<notin> set pat \<and> CHR 0x5C \<notin> set pat \<and> CHR ''['' \<notin> set pat)
      \<or> (CHR ''['' \<in> set pat \<and> CHR '']'' \<notin> set pat \<and> CHR 0x5C \<notin> set pat))"

text \<open>The model of \<open>(s.match(new RegExp(pat, "gi")) || []).length\<close>: a pattern without
  syntax characters is a literal, matched without regard to letter case; a rejected
  pattern throws; any other pattern is outside the model.\<close>

definition RegExp_count :: regexp_count where
  "RegExp_count pat s =
     (if \<forall>c \<in> set pat. c \<notin> set syntax_chars
      then Inr (count_matches 0 (toLowerCase pat) (toLowerCase s))
      else if rejected_pattern pat then Inl SyntaxError
      else Inl NotModelled)"

subsection \<open>extractTitle\<close>

definition trim :: "string \<Rightarrow> string" where
  "trim s = rev (dropWhile is_space (rev (dropWhile is_space s)))"

text \<open>\<open>line.match(/^#+\s+(.+)$/)\<close> followed by \<open>headerMatch[1].trim()\<close>: hashes, white
  space, and a rest without line terminator. A rest of white space alone gives at best
  an empty title, which the caller skips as it skips a line that does not match.\<close>

definition header_title :: "string \<Rightarrow> string option" where
  "header_title line =
     (let r1 = dropWhile (\<lambda>c. c = CHR ''#'') line;
          r2 = dropWhile is_space r1
      in if length r1 = length line \<or> length r2 = length r1 \<or> r2 = []
            \<or> CHR 0x0D \<in> set r2 \<or> CHR 0x0A \<in> set r2
         then None
         else Some (trim r2))"

text \<open>\<open>genericPatterns.some(pattern => pattern.test(t))\<close>.\<close>

definition generic_prefixes :: "string list" where
  "generic_prefixes =
     [''for all'', ''for any'', ''for most'', ''for some'',
      ''in this'', ''in these'', ''in all'', ''in any'',
      ''with this'', ''with these'', ''with all'', ''with any'',
      ''using this'', ''using these'', ''using all'', ''using any'',
      ''note:'', ''warning:'', ''tip:'', ''important:'',
      ''here is'', ''here are'', ''there is'', ''there are'',
      ''this is'', ''this are'', ''that is'', ''that are'',
      ''http://'', ''https://'']"

definition isGeneric :: "string \<Rightarrow> bool" where
  "isGeneric t =
     ((\<exists>p \<in> set generic_prefixes. prefix p (toLowerCase t))
      \<or> (t \<noteq> [] \<and> (\<forall>c \<in> set t. c \<in> set ''0123456789.''))
      \<or> (case t of c1 # c2 # _ \<Rightarrow> c1 \<in> set ''-*+'' \<and> is_space c2 | _ \<Rightarrow> False))"

text \<open>The loop over the markdown headers.\<close>

fun first_header :: "string list \<Rightarrow> string option" where
  "first_header [] = None"
| "first_header (line # ls) =
     (case header_title line of
        Some t \<Rightarrow> if \<not> isGeneric t \<and> length t > 3 then Some t else first_header ls
      | None \<Rightarrow> first_header ls)"

text \<open>The fallback loop: the first line that is not skipped and is longer than ten
  characters, cut at its first sentence (\<open>/^([^.!?]+[.!?])/\<close>) and at 100 characters.\<close>

definition sentence_of :: "string \<Rightarrow> string option" where
  "sentence_of t =
     (let k = length (takeWhile (\<lambda>c. c \<notin> set ''.!?'') t)
      in if 1 \<le> k \<and> k < length t then Some (take (Suc k) t) else None)"

fun first_meaningful :: "string list \<Rightarrow> string" where
  "first_meaningful [] = ''Untitled''"
| "first_meaningful (line # ls) =
     (let trimmed = trim line
      in if trimmed = [] \<or> (\<forall>c \<in> set trimmed. c \<in> set ''-='')
            \<or> prefix ''{'' trimmed \<or> prefix ''['' trimmed \<or> prefix ''```'' trimmed
            \<or> prefix ''http://'' trimmed \<or> prefix ''https://'' trimmed
         then first_meaningful ls
         else if isGeneric trimmed then first_meaningful ls
         else if length trimmed > 10
         then (case sentence_of trimmed of
                 Some s \<Rightarrow> take 100 (trim s)
               | None \<Rightarrow> take 100 trimmed)
         else first_meaningful ls)"

text \<open>The model of \<open>extractTitle\<close>: the header loop and the fallback loop. The two
  branches that come before them are not modelled: the front matter, which needs a
  content that starts with \<open>---\<close>, and the embedded JSON record, which needs a brace.\<close>

definition extractTitle :: title_of where
  "extractTitle c =
     (if prefix ''---'' c \<or> CHR ''{'' \<in> set c then Inl NotModelled
      else (case first_header (lines_of c) of
              Some t \<Rightarrow> Inr t
            | None \<Rightarrow> Inr (first_meaningful (lines_of c))))"

section \<open>Search (lib/documentation-service.js)\<close>

record item =
  content :: string
  startLine :: nat

text \<open>\<open>this.sections\<close>: an object from section name to the list of its items; its keys
  are kept in insertion order.\<close>

type_synonym sections = "(string \<times> item list) list"

text \<open>\<open>this.sections[sectionName] || []\<close>.\<close>

definition section_items :: "sections \<Rightarrow> string \<Rightarrow> item list" where
  "section_items secs n = (case map_of secs n of Some its \<Rightarrow> its | None \<Rightarrow> [])"

definition sectionsToSearch :: "sections \<Rightarrow> string \<Rightarrow> string list" where
  "sectionsToSearch secs cat =
     (if cat = ''all'' then map fst secs
      else if cat = ''api'' then [''api-docs'']
      else if cat = ''guides''
      then filter (\<lambda>s. s \<notin> set [''api-docs'', ''community-bloggers'']) (map fst secs)
      else if cat = ''community'' then [''community-bloggers'']
      else [])"

definition categorizeSectionName :: "string \<Rightarrow> string" where
  "categorizeSectionName sectionName =
     (if sectionName = ''api-docs'' then ''API Documentation''
      else if sectionName = ''community-bloggers'' then ''Community Articles''
      else ''Guides & Tutorials'')"

text \<open>The local variables of the scoring of one item: \<open>score\<close>, \<open>matchedTerms\<close> and
  \<open>termPositions\<close>.\<close>

type_synonym tally = "int \<times> string list \<times> (string \<times> nat) list"

text \<open>\<open>searchTerms.forEach((term) => ...)\<close>; a throw of the constructor ends the loop.\<close>

fun check_terms ::
  "regexp_count \<Rightarrow> search_config \<Rightarrow> string \<Rightarrow> string \<Rightarrow> string list \<Rightarrow> tally \<Rightarrow> failure + tally"
where
  "check_terms rx cfg c titleLower [] acc = Inr acc"
| "check_terms rx cfg c titleLower (term # ts) (sc, mt, tp) =
     (case rx term c of
        Inl e \<Rightarrow> Inl e
      | Inr matches \<Rightarrow>
          if matches > 0
          then check_terms rx cfg c titleLower ts
                 (sc + (if str_includes titleLower term then TITLE_MATCH_BONUS cfg else 0)
                     + int matches * TERM_MATCH_WEIGHT cfg,
                  mt @ [term],
                  (case indexOf c term of Some pos \<Rightarrow> tp @ [(term, pos)] | None \<Rightarrow> tp))
          else check_terms rx cfg c titleLower ts (sc, mt, tp))"

text \<open>The all-terms bonus and, inside it, the proximity bonus; \<open>termPositions\<close> is sorted
  in place by a stable sort on the position.\<close>

definition all_terms_bonus :: "search_config \<Rightarrow> string list \<Rightarrow> tally \<Rightarrow> tally" where
  "all_terms_bonus cfg searchTerms acc =
     (case acc of (sc, mt, tp) \<Rightarrow>
        if length mt = length searchTerms
        then (let sc1 = sc + ALL_TERMS_BONUS cfg
              in if length tp > 1
                 then (let sorted = sort_key snd tp;
                           spread = int (snd (last sorted)) - int (snd (hd sorted))
                       in if spread < PROXIMITY_THRESHOLD cfg
                          then (sc1 + (PROXIMITY_THRESHOLD cfg - spread)
                                        div PROXIMITY_BONUS_DIVISOR cfg, mt, sorted)
                          else (sc1, mt, sorted))
                 else (sc1, mt, tp))
        else (sc, mt, tp))"

text \<open>The scoring of one item for a query: the title and the final \<open>score\<close>,
  \<open>matchedTerms\<close> and \<open>termPositions\<close>.\<close>

definition score_item ::
  "regexp_count \<Rightarrow> title_of \<Rightarrow> search_config \<Rightarrow> string \<Rightarrow> item \<Rightarrow> failure + (string \<times> tally)"
where
  "score_item rx tf cfg query it =
     (let queryLower = toLowerCase query;
          searchTerms = words_of queryLower;
          c = toLowerCase (content it)
      in case tf (content it) of
           Inl e \<Rightarrow> Inl e
         | Inr t \<Rightarrow>
             (case check_terms rx cfg c (toLowerCase t) searchTerms
                     (if str_includes c queryLower
                      then (EXACT_PHRASE_BONUS cfg, [queryLower], [])
                      else (0, [], [])) of
                Inl e \<Rightarrow> Inl e
              | Inr acc \<Rightarrow> Inr (t, all_terms_bonus cfg searchTerms acc)))"

text \<open>A search result. Its fields \<open>excerpt\<close>, \<open>url\<close>, \<open>apiLink\<close> and \<open>deprecationInfo\<close>
  are computed from the item and the title after admission and play no part in the
  admission, the score or the order; they are left out.\<close>

record search_result =
  title :: string
  category :: string
  score :: int
  matchedTerms :: nat
  totalTerms :: nat

text \<open>The admission test and \<open>results.push\<close>.\<close>

definition admitted :: "search_config \<Rightarrow> tally \<Rightarrow> bool" where
  "admitted cfg acc =
     (case acc of (sc, mt, tp) \<Rightarrow>
        sc \<ge> MIN_SCORE cfg \<and> (length mt \<ge> 2 \<or> sc \<ge> MIN_SCORE_SINGLE_TERM cfg))"

definition result_of :: "string \<Rightarrow> string \<Rightarrow> string \<Rightarrow> tally \<Rightarrow> search_result" where
  "result_of query sectionName t acc =
     (case acc of (sc, mt, tp) \<Rightarrow>
        \<lparr>title = t, category = categorizeSectionName sectionName, score = sc,
         matchedTerms = length mt, totalTerms = length (words_of (toLowerCase query))\<rparr>)"

text \<open>\<open>for (const item of sectionItems)\<close> and \<open>for (const sectionName of
  sectionsToSearch)\<close>: the results in the order of the scan.\<close>

fun scan_items ::
  "regexp_count \<Rightarrow> title_of \<Rightarrow> search_config \<Rightarrow> string \<Rightarrow> string \<Rightarrow> item list
     \<Rightarrow> failure + search_result list"
where
  "scan_items rx tf cfg query sectionName [] = Inr []"
| "scan_items rx tf cfg query sectionName (it # its) =
     (case score_item rx tf cfg query it of
        Inl e \<Rightarrow> Inl e
      | Inr (t, acc) \<Rightarrow>
          (case scan_items rx tf cfg query sectionName its of
             Inl e \<Rightarrow> Inl e
           | Inr rs \<Rightarrow>
               Inr (if admitted cfg acc then result_of query sectionName t acc # rs else rs)))"

fun scan_sections ::
  "regexp_count \<Rightarrow> title_of \<Rightarrow> search_config \<Rightarrow> sections \<Rightarrow> string \<Rightarrow> string list
     \<Rightarrow> failure + search_result list"
where
  "scan_sections rx tf cfg secs query [] = Inr []"
| "scan_sections rx tf cfg secs query (sectionName # ns) =
     (case scan_items rx tf cfg query sectionName (section_items secs sectionName) of
        Inl e \<Rightarrow> Inl e
      | Inr rs \<Rightarrow>
          (case scan_sections rx tf cfg secs query ns of
             Inl e \<Rightarrow> Inl e
           | Inr rs' \<Rightarrow> Inr (rs @ rs')))"

text \<open>\<open>results.sort((a, b) => b.score - a.score)\<close>: \<open>Array.prototype.sort\<close> is a stable
  sort by the comparator, here as an insertion sort.\<close>

definition compare_score :: "search_result \<Rightarrow> search_result \<Rightarrow> int" where
  "compare_score a b = score b - score a"

fun insert_result :: "search_result \<Rightarrow> search_result list \<Rightarrow> search_result list" where
  "insert_result r [] = [r]"
| "insert_result r (x # xs) =
     (if compare_score r x \<le> 0 then r # x # xs else x # insert_result r xs)"

definition sort_results :: "search_result list \<Rightarrow> search_result list" where
  "sort_results rs = foldr insert_result rs []"

text \<open>\<open>results.slice(0, limit)\<close>; a negative \<open>limit\<close> counts from the end.\<close>

definition slice0 :: "'a list \<Rightarrow> int \<Rightarrow> 'a list" where
  "slice0 xs limit =
     (if limit < 0 then take (nat (int (length xs) + limit)) xs else take (nat limit) xs)"

definition scan ::
  "regexp_count \<Rightarrow> title_of \<Rightarrow> search_config \<Rightarrow> sections \<Rightarrow> string \<Rightarrow> string
     \<Rightarrow> failure + search_result list"
where
  "scan rx tf cfg secs query cat =
     scan_sections rx tf cfg secs query (sectionsToSearch secs cat)"

definition search ::
  "regexp_count \<Rightarrow> title_of \<Rightarrow> search_config \<Rightarrow> sections \<Rightarrow> string \<Rightarrow> string \<Rightarrow> int
     \<Rightarrow> failure + search_result list"
where
  "search rx tf cfg secs query cat limit =
     (case scan rx tf cfg secs query cat of
        Inl e \<Rightarrow> Inl e
      | Inr results \<Rightarrow> Inr (slice0 (sort_results results) limit))"

definition example_sections :: sections where
  "example_sections =
     [(''guides'', [\<lparr>content = ''foo and bar'', startLine = 0\<rparr>,
                    \<lparr>content = ''foo bar'', startLine = 3\<rparr>,
                    \<lparr>content = ''bar and foo'', startLine = 5\<rparr>])]"

definition detected_ArrayProxy :: deprecation_info where
  "detected_ArrayProxy = \<lparr>name = ''ArrayProxy'', status = ''deprecated'', since = Some ''5.0'',
     reason = None, modernAlternative = Some ''tracked properties'',
     category = None, severity = ''warning'', deprecationGuideLink = None\<rparr>"

section \<open>Excerpt extraction (extractExcerpt)\<close>

text \<open>The inner loop for the hit at position \<open>p\<close>, over the hits after it:
  \<open>clusterSize\<close> counts the hit and the following ones until the first that is 500 or
  more characters after \<open>p\<close>.\<close>

fun clusterSize :: "nat \<Rightarrow> nat list \<Rightarrow> nat" where
  "clusterSize p [] = 1"
| "clusterSize p (q # qs) = (if int q - int p < 500 then Suc (clusterSize p qs) else 1)"

text \<open>The outer loop, with \<open>bestStart\<close> and \<open>bestDensity\<close> as its state.\<close>

fun bestCluster :: "nat list \<Rightarrow> nat \<times> nat \<Rightarrow> nat \<times> nat" where
  "bestCluster [] best = best"
| "bestCluster (p # ps) (bestStart, bestDensity) =
     (let clusterSize = clusterSize p ps
      in bestCluster ps
           (if clusterSize > bestDensity then (p, clusterSize) else (bestStart, bestDensity)))"

text \<open>The first branch of \<open>extractExcerpt\<close>, up to the window: \<open>bestStart\<close>,
  \<open>contextStart\<close> and \<open>contextEnd\<close>, the bounds of \<open>content.substring(contextStart,
  contextEnd)\<close> before that text is trimmed to word boundaries and cleaned. \<open>None\<close>
  stands for the fall-through to the other branches when there is no term position.\<close>

definition excerpt_window :: "string \<Rightarrow> (string \<times> nat) list \<Rightarrow> (nat \<times> nat \<times> nat) option" where
  "excerpt_window c termPositions =
     (if termPositions = [] then None
      else (let sorted = sort_key snd termPositions;
                best = bestCluster (map snd sorted) (snd (hd sorted), 1);
                bestStart = fst best;
                contextStart = bestStart - 150;
                contextEnd = min (length c) (bestStart + 400)
            in Some (bestStart, contextStart, contextEnd)))"

text \<open>The cluster as the specification words it: the sorted hits are cut into the
  maximal runs whose consecutive gaps are all below 500, and the first of the longest
  runs is taken.\<close>

fun gap_runs :: "nat list \<Rightarrow> nat list list" where
  "gap_runs [] = []"
| "gap_runs [p] = [[p]]"
| "gap_runs (p # q # ps) =
     (case gap_runs (q # ps) of
        [] \<Rightarrow> [[p]]
      | r # rs \<Rightarrow> if int q - int p < 500 then (p # r) # rs else [p] # r # rs)"

fun first_longest :: "'a list list \<Rightarrow> 'a list" where
  "first_longest [] = []"
| "first_longest (r # rs) =
     (let l = first_longest rs in if length l > length r then l else r)"

definition spec_cluster_start :: "(string \<times> nat) list \<Rightarrow> nat option" where
  "spec_cluster_start termPositions =
     (case first_longest (gap_runs (sort (map snd termPositions))) of
        [] \<Rightarrow> None
      | p # _ \<Rightarrow> Some p)"

text \<open>The number of hits from the \<open>k\<close>-th on that lie less than 500 characters after
  the \<open>k\<close>-th, in a list of positions.\<close>

definition window_hits :: "nat list \<Rightarrow> nat \<Rightarrow> nat" where
  "window_hits ps k = length (filter (\<lambda>q. int q - int (ps ! k) < 500) (drop k ps))"

definition example_hits :: "(string \<times> nat) list" where
  "example_hits = [(''ember'', 998), (''data'', 0), (''store'', 499), (''model'', 1001), (''adapter'', 1000)]"

text \<open>The cluster sizes that the outer loop computes, one for each hit.\<close>

fun sizes :: "nat list \<Rightarrow> nat list" where
  "sizes [] = []"
| "sizes (p # ps) = clusterSize p ps # sizes ps"

section \<open>Corpus segmentation (parseDocumentation)\<close>

text \<open>\<open>line.match(/^# [a-z-]+$/)\<close> and \<open>line.match(/^-{3,}$/)\<close>, on a line of
  \<open>text.split("\n")\<close>.\<close>

definition section_name_chars :: string where
  "section_name_chars = ''abcdefghijklmnopqrstuvwxyz-''"

definition is_section_header :: "string \<Rightarrow> bool" where
  "is_section_header line =
     (case line of
        c1 # c2 # rest \<Rightarrow>
          c1 = CHR ''#'' \<and> c2 = CHR '' '' \<and> rest \<noteq> []
          \<and> (\<forall>c \<in> set rest. c \<in> set section_name_chars)
      | _ \<Rightarrow> False)"

definition is_separator :: "string \<Rightarrow> bool" where
  "is_separator line = (length line \<ge> 3 \<and> (\<forall>c \<in> set line. c = CHR ''-''))"

text \<open>The local variables of the loop and \<open>this.sections\<close>; \<open>None\<close> is the \<open>null\<close> of
  \<open>currentSection\<close>.\<close>

record parse_state =
  currentSection :: "nat option"
  currentContent :: "string list"
  sectionName :: string
  sections_of :: sections

text \<open>\<open>this.sections[sectionName] = this.sections[sectionName] || []\<close> followed by
  \<open>this.sections[sectionName].push(item)\<close>. \<open>this.sections\<close> starts as \<open>{}\<close>, which
  inherits \<open>constructor\<close> from \<open>Object.prototype\<close>: under that one section name the
  first statement stores the inherited function and \<open>push\<close> throws a \<open>TypeError\<close>.\<close>

fun append_item :: "sections \<Rightarrow> string \<Rightarrow> item \<Rightarrow> sections" where
  "append_item [] n it = [(n, [it])]"
| "append_item ((m, its) # rest) n it =
     (if m = n then (m, its @ [it]) # rest else (m, its) # append_item rest n it)"

definition push_item :: "sections \<Rightarrow> string \<Rightarrow> item \<Rightarrow> failure + sections" where
  "push_item secs n it =
     (if n = ''constructor'' then Inl TypeError else Inr (append_item secs n it))"

text \<open>The block that saves the buffered item, under
  \<open>currentSection !== null && currentContent.length > 0\<close>.\<close>

definition save_item :: "parse_state \<Rightarrow> failure + sections" where
  "save_item s =
     (case currentSection s of
        None \<Rightarrow> Inr (sections_of s)
      | Some start \<Rightarrow>
          if currentContent s \<noteq> []
          then push_item (sections_of s) (sectionName s)
                 \<lparr>content = join_lines (currentContent s), startLine = start\<rparr>
          else Inr (sections_of s))"

text \<open>The test of the second branch of the loop body.\<close>

definition closes_item :: "parse_state \<Rightarrow> string \<Rightarrow> bool" where
  "closes_item s line =
     (is_separator line \<and> length (currentContent s) > 1 \<and> currentSection s \<noteq> None)"

text \<open>The body of the loop for line \<open>i\<close>.\<close>

definition parse_line :: "nat \<Rightarrow> string \<Rightarrow> parse_state \<Rightarrow> failure + parse_state" where
  "parse_line i line s =
     (if is_section_header line
      then (case save_item s of
              Inl e \<Rightarrow> Inl e
            | Inr secs \<Rightarrow>
                Inr \<lparr>currentSection = Some i, currentContent = [line],
                     sectionName = trim (drop 2 line), sections_of = secs\<rparr>)
      else if closes_item s line
      then (case save_item s of
              Inl e \<Rightarrow> Inl e
            | Inr secs \<Rightarrow>
                Inr (s\<lparr>sections_of := secs, currentSection := Some (i + 1),
                        currentContent := []\<rparr>))
      else if currentSection s \<noteq> None
      then Inr (s\<lparr>currentContent := currentContent s @ [line]\<rparr>)
      else Inr s)"

fun parse_lines :: "nat \<Rightarrow> string list \<Rightarrow> parse_state \<Rightarrow> failure + parse_state" where
  "parse_lines i [] s = Inr s"
| "parse_lines i (line # ls) s =
     (case parse_line i line s of
        Inl e \<Rightarrow> Inl e
      | Inr s' \<Rightarrow> parse_lines (Suc i) ls s')"

definition initial_state :: parse_state where
  "initial_state =
     \<lparr>currentSection = None, currentContent = [], sectionName = [], sections_of = []\<rparr>"

text \<open>\<open>parseDocumentation\<close>, on the sections of a new service: the loop and the saving of
  the last item. The indexing of the API records and the analysis of deprecations, which
  follow and do not change the sections, are left out.\<close>

definition parseDocumentation :: "string \<Rightarrow> failure + sections" where
  "parseDocumentation text =
     (case parse_lines 0 (lines_of text) initial_state of
        Inl e \<Rightarrow> Inl e
      | Inr s \<Rightarrow> save_item s)"

text \<open>The count of the specification for one section: one plus the number of separator
  lines inside it, not counting separators that come before any content.\<close>

definition spec_item_count :: "string list \<Rightarrow> nat" where
  "spec_item_count body = 1 + length (filter is_separator (dropWhile is_separator body))"

text \<open>For the lines of one section after its header, with \<open>n\<close> lines in the buffer: the
  number of separator lines that close an item, and the number of lines in the buffer
  at the end.\<close>

fun closing_separators :: "nat \<Rightarrow> string list \<Rightarrow> nat" where
  "closing_separators n [] = 0"
| "closing_separators n (line # ls) =
     (if is_separator line \<and> n > 1 then Suc (closing_separators 0 ls)
      else closing_separators (Suc n) ls)"

fun buffered_at_end :: "nat \<Rightarrow> string list \<Rightarrow> nat" where
  "buffered_at_end n [] = n"
| "buffered_at_end n (line # ls) =
     (if is_separator line \<and> n > 1 then buffered_at_end 0 ls
      else buffered_at_end (Suc n) ls)"

definition example_corpus :: string where
  "example_corpus = ''# guides\<newline>intro\<newline>---\<newline>one\<newline>---\<newline>two''"

definition example_corpus_trailing :: string where
  "example_corpus_trailing = ''# guides\<newline>intro\<newline>---''"

text \<open>The blocks of a corpus: each section header line with the lines that follow it up
  to the next header. Lines before the first header belong to no block.\<close>

fun blocks :: "string list \<Rightarrow> (string \<times> string list) list" where
  "blocks [] = []"
| "blocks (line # ls) =
     (if is_section_header line
      then (line, takeWhile (\<lambda>l. \<not> is_section_header l) ls) # blocks ls
      else blocks ls)"

text \<open>The number of items of one block, from the lines after its header: the separator
  lines that close an item, and one more item unless the buffer is empty at the end.\<close>

definition block_count :: "string list \<Rightarrow> nat" where
  "block_count body =
     closing_separators 1 body + (if buffered_at_end 1 body = 0 then 0 else 1)"

text \<open>The number of items of the section \<open>n\<close>: the sum over the blocks whose header
  names \<open>n\<close>.\<close>

definition section_count :: "string \<Rightarrow> string list \<Rightarrow> nat" where
  "section_count n ls =
     sum_list (map (\<lambda>b. block_count (snd b)) (filter (\<lambda>b. drop 2 (fst b) = n) (blocks ls)))"

text \<open>What the rest of the corpus will add to the section \<open>n\<close>, seen from a state of the
  loop: the items of the block that is open, and those of the blocks to come.\<close>

definition pending :: "parse_state \<Rightarrow> string list \<Rightarrow> string \<Rightarrow> nat" where
  "pending s ls n =
     (case currentSection s of
        None \<Rightarrow> 0
      | Some c \<Rightarrow>
          if sectionName s = n
          then (let body = takeWhile (\<lambda>l. \<not> is_section_header l) ls;
                    k = length (currentContent s)
                in closing_separators k body + (if buffered_at_end k body = 0 then 0 else 1))
          else 0)
     + section_count n ls"

text \<open>A corpus with text before the first header, two sections, and a section that is
  opened twice.\<close>

definition example_corpus_sections :: string where
  "example_corpus_sections =
     ''preface\<newline># guides\<newline>intro\<newline>---\<newline>one\<newline>---\<newline>two\<newline># api-docs\<newline>x\<newline># guides\<newline>more''"

text \<open>All items of all sections.\<close>

definition all_items :: "sections \<Rightarrow> item list" where
  "all_items secs = concat (map snd secs)"

text \<open>The invariant of the loop before line \<open>i\<close>: section names and start lines are
  not repeated, and every saved item starts before the current one.\<close>

definition parse_inv :: "nat \<Rightarrow> parse_state \<Rightarrow> bool" where
  "parse_inv i s =
     (distinct (map fst (sections_of s))
      \<and> distinct (map startLine (all_items (sections_of s)))
      \<and> (case currentSection s of
            None \<Rightarrow> sections_of s = []
          | Some c \<Rightarrow>
              c \<le> i \<and> (currentContent s \<noteq> [] \<longrightarrow> c < i)
              \<and> (\<forall>it \<in> set (all_items (sections_of s)). startLine it < c)))"

section \<open>Best practices (getBestPractices)\<close>

text \<open>
  \<open>pluralize.singular\<close> and \<open>pluralize.plural\<close> belong to a package outside the
  repository, and the keyword lists \<open>BEST_PRACTICES_KEYWORDS\<close> to \<open>config.js\<close>: they are
  arguments of the functions below. An inflection returns a failure or a word, so that
  a table standing for the package can refuse the words it does not list.
\<close>

type_synonym inflection = "string \<Rightarrow> failure + string"


text \<open>The test made for one term, in \<open>getBestPractices\<close> on the content and in
  \<open>extractBestPracticeSections\<close> on a line: the literal term, then its singular form,
  then its plural form; a form is computed only when the tests before it have failed.\<close>

definition term_matches :: "inflection \<Rightarrow> inflection \<Rightarrow> string \<Rightarrow> string \<Rightarrow> failure + bool" where
  "term_matches singular plural c term =
     (if str_includes c term then Inr True
      else case singular term of
        Inl e \<Rightarrow> Inl e
      | Inr sg \<Rightarrow>
          if sg \<noteq> term \<and> str_includes c sg then Inr True
          else case plural term of
            Inl e \<Rightarrow> Inl e
          | Inr pl \<Rightarrow> Inr (pl \<noteq> term \<and> str_includes c pl))"

text \<open>\<open>topicTerms.filter(term => ...)\<close>.\<close>

fun filter_terms :: "inflection \<Rightarrow> inflection \<Rightarrow> string \<Rightarrow> string list \<Rightarrow> failure + string list" where
  "filter_terms singular plural c [] = Inr []"
| "filter_terms singular plural c (term # terms) =
     (case term_matches singular plural c term of
        Inl e \<Rightarrow> Inl e
      | Inr b \<Rightarrow>
          (case filter_terms singular plural c terms of
             Inl e \<Rightarrow> Inl e
           | Inr matched \<Rightarrow> Inr (if b then term # matched else matched)))"




subsection \<open>extractBestPracticeSections\<close>














subsection \<open>The loop over the candidates, the sort and the cap\<close>






subsection \<open>Sample inflections, keywords and documents\<close>












section \<open>Scores of items that have every query term\<close>

text \<open>A term has a match in a content when the engine returns a positive count.\<close>

definition has_match :: "regexp_count \<Rightarrow> string \<Rightarrow> string \<Rightarrow> bool" where
  "has_match rx c term = (case rx term c of Inr n \<Rightarrow> n > 0 | Inl e \<Rightarrow> False)"

text \<open>What one term adds to the score in \<open>check_terms\<close>: the title bonus and the weight
  of its matches; and the sum over the query terms.\<close>

definition term_score :: "regexp_count \<Rightarrow> search_config \<Rightarrow> string \<Rightarrow> string \<Rightarrow> string \<Rightarrow> int" where
  "term_score rx cfg c titleLower term =
     (case rx term c of
        Inr n \<Rightarrow>
          if n > 0
          then (if str_includes titleLower term then TITLE_MATCH_BONUS cfg else 0)
               + int n * TERM_MATCH_WEIGHT cfg
          else 0
      | Inl e \<Rightarrow> 0)"

definition terms_score ::
  "regexp_count \<Rightarrow> search_config \<Rightarrow> string \<Rightarrow> string \<Rightarrow> string list \<Rightarrow> int" where
  "terms_score rx cfg c titleLower terms = sum_list (map (term_score rx cfg c titleLower) terms)"

text \<open>The first positions of the terms in a content, in the order of the terms, and the
  distance from the least to the greatest of them.\<close>

definition first_positions :: "string \<Rightarrow> string list \<Rightarrow> (string \<times> nat) list" where
  "first_positions c terms =
     concat (map (\<lambda>t. case indexOf c t of Some pos \<Rightarrow> [(t, pos)] | None \<Rightarrow> []) terms)"

definition spread_of :: "(string \<times> nat) list \<Rightarrow> int" where
  "spread_of tp =
     (let sorted = sort_key snd tp in int (snd (last sorted)) - int (snd (hd sorted)))"

definition example_adjacent :: item where
  "example_adjacent = \<lparr>content = ''foo bar'', startLine = 0\<rparr>"

text \<open>\<open>foo\<close>, 100 empty lines, and then \<open>count\<close> lines \<open>bar\<close>.\<close>

definition example_scattered :: "nat \<Rightarrow> item" where
  "example_scattered count =
     \<lparr>content = ''foo'' @ replicate 100 (CHR 0x0A) @ concat (replicate count (''bar'' @ [CHR 0x0A])),
      startLine = 1\<rparr>"

text \<open>The number of entries of \<open>matchedTerms\<close> for an item: one for the whole query
  when the content has it, and one for every query term that has a match, a term that
  is repeated in the query being counted each time.\<close>

definition matched_entries :: "regexp_count \<Rightarrow> string \<Rightarrow> item \<Rightarrow> nat" where
  "matched_entries rx query it =
     (if str_includes (toLowerCase (content it)) (toLowerCase query) then 1 else 0)
     + length (filter (has_match rx (toLowerCase (content it))) (words_of (toLowerCase query)))"

section \<open>Properties of the deprecation manager\<close>

lemma toLowerCase_Nil_iff: "toLowerCase s = [] \<longleftrightarrow> s = []"
  by (simp add: toLowerCase_def)

text \<open>
  C9, as stated, fails for the empty name: \<open>registerDeprecation\<close> returns at its guard
  without storing anything and the lookup returns \<open>null\<close>.
\<close>

theorem register_empty_name_not_found:
  "getDeprecationInfo (registerDeprecation new_DeprecationManager [] (Some known_Evented)) []
     \<noteq> Some known_Evented"
  by (simp add: getDeprecationInfo_def)

text \<open>
  C9 (amended): lookups depend on the queried name only through its lower-case form; an
  entry of the content-derived map is returned before any seeded entry; and after
  \<open>registerDeprecation\<close> of a non-empty name, a lookup of that name in any letter case
  returns the registered record and \<open>isDeprecated\<close> holds.
\<close>

theorem deprecation_lookup_case_insensitive_content_first:
  "(toLowerCase n1 = toLowerCase n2 \<longrightarrow>
      isDeprecated m n1 = isDeprecated m n2 \<and>
      getDeprecationInfo m n1 = getDeprecationInfo m n2)
   \<and> (nm \<noteq> [] \<and> deprecations m (toLowerCase nm) = Some d \<longrightarrow>
      getDeprecationInfo m nm = Some d \<and> isDeprecated m nm)
   \<and> (nm \<noteq> [] \<and> toLowerCase nm' = toLowerCase nm \<longrightarrow>
      getDeprecationInfo (registerDeprecation m nm (Some r)) nm' = Some r \<and>
      isDeprecated (registerDeprecation m nm (Some r)) nm')"
proof (intro conjI impI)
  assume eq: "toLowerCase n1 = toLowerCase n2"
  then have "n1 = [] \<longleftrightarrow> n2 = []"
    by (metis toLowerCase_Nil_iff)
  with eq show "isDeprecated m n1 = isDeprecated m n2"
    and "getDeprecationInfo m n1 = getDeprecationInfo m n2"
    by (simp_all add: isDeprecated_def getDeprecationInfo_def)
next
  assume "nm \<noteq> [] \<and> deprecations m (toLowerCase nm) = Some d"
  then show "getDeprecationInfo m nm = Some d" and "isDeprecated m nm"
    by (simp_all add: isDeprecated_def getDeprecationInfo_def)
next
  assume a: "nm \<noteq> [] \<and> toLowerCase nm' = toLowerCase nm"
  then have "nm' \<noteq> []"
    by (metis toLowerCase_Nil_iff)
  with a show "getDeprecationInfo (registerDeprecation m nm (Some r)) nm' = Some r"
    and "isDeprecated (registerDeprecation m nm (Some r)) nm'"
    by (simp_all add: isDeprecated_def getDeprecationInfo_def registerDeprecation_def)
qed

section \<open>Properties of search\<close>

subsection \<open>The sort and the slice\<close>

lemma set_insert_result: "set (insert_result r xs) = insert r (set xs)"
  by (induction xs) auto

lemma set_sort_results: "set (sort_results rs) = set rs"
  by (induction rs) (simp_all add: sort_results_def set_insert_result)

lemma sorted_insert_result:
  "sorted_wrt (\<lambda>a b. score a \<ge> score b) xs
   \<Longrightarrow> sorted_wrt (\<lambda>a b. score a \<ge> score b) (insert_result r xs)"
proof (induction xs)
  case Nil
  then show ?case by simp
next
  case (Cons x xs)
  show ?case
  proof (cases "compare_score r x \<le> 0")
    case True
    then have "score x \<le> score r"
      by (simp add: compare_score_def)
    with Cons.prems True show ?thesis
      by auto
  next
    case False
    then have "score r \<le> score x"
      by (simp add: compare_score_def)
    with Cons False show ?thesis
      by (auto simp: set_insert_result)
  qed
qed

lemma sorted_sort_results: "sorted_wrt (\<lambda>a b. score a \<ge> score b) (sort_results rs)"
  by (induction rs) (simp_all add: sort_results_def sorted_insert_result)

lemma filter_insert_result:
  "filter (\<lambda>y. score y = v) (insert_result r xs) =
     (if score r = v then r # filter (\<lambda>y. score y = v) xs else filter (\<lambda>y. score y = v) xs)"
  by (induction xs) (auto simp: compare_score_def)

lemma filter_sort_results:
  "filter (\<lambda>y. score y = v) (sort_results rs) = filter (\<lambda>y. score y = v) rs"
  by (induction rs) (simp_all add: sort_results_def filter_insert_result)

lemma slice0_take: "\<exists>k. slice0 xs limit = take k xs"
  by (auto simp: slice0_def)

lemma set_slice0: "set (slice0 xs limit) \<subseteq> set xs"
  using slice0_take [of xs limit] by (auto dest: in_set_takeD)

lemma prefix_filter_take: "prefix (filter P (take k xs)) (filter P xs)"
proof -
  have "filter P xs = filter P (take k xs) @ filter P (drop k xs)"
    by (metis append_take_drop_id filter_append)
  then show ?thesis
    by (simp add: prefix_def)
qed

subsection \<open>Admission\<close>

lemma result_of_admitted:
  "admitted cfg acc \<Longrightarrow> r = result_of query n t acc
   \<Longrightarrow> score r \<ge> MIN_SCORE cfg \<and> (matchedTerms r \<ge> 2 \<or> score r \<ge> MIN_SCORE_SINGLE_TERM cfg)"
  by (cases acc) (auto simp: admitted_def result_of_def)

lemma scan_items_admitted:
  "scan_items rx tf cfg query n its = Inr rs \<Longrightarrow> r \<in> set rs
   \<Longrightarrow> score r \<ge> MIN_SCORE cfg \<and> (matchedTerms r \<ge> 2 \<or> score r \<ge> MIN_SCORE_SINGLE_TERM cfg)"
proof (induction its arbitrary: rs)
  case Nil
  then show ?case by simp
next
  case (Cons it its)
  from Cons.prems(1) obtain t acc rs' where
    s: "score_item rx tf cfg query it = Inr (t, acc)"
    and r: "scan_items rx tf cfg query n its = Inr rs'"
    and rs: "rs = (if admitted cfg acc then result_of query n t acc # rs' else rs')"
    by (auto split: sum.splits prod.splits)
  show ?case
  proof (cases "r \<in> set rs'")
    case True
    with Cons.IH r show ?thesis by blast
  next
    case False
    show ?thesis
    proof (cases "admitted cfg acc")
      case True
      with rs have "rs = result_of query n t acc # rs'"
        by simp
      with Cons.prems(2) False have "r = result_of query n t acc"
        by simp
      with True show ?thesis
        by (rule result_of_admitted)
    next
      case False
      with rs have "rs = rs'"
        by simp
      with Cons.prems(2) \<open>r \<notin> set rs'\<close> show ?thesis
        by simp
    qed
  qed
qed

lemma scan_sections_admitted:
  "scan_sections rx tf cfg secs query ns = Inr rs \<Longrightarrow> r \<in> set rs
   \<Longrightarrow> score r \<ge> MIN_SCORE cfg \<and> (matchedTerms r \<ge> 2 \<or> score r \<ge> MIN_SCORE_SINGLE_TERM cfg)"
proof (induction ns arbitrary: rs)
  case Nil
  then show ?case by simp
next
  case (Cons n ns)
  from Cons.prems(1) obtain rs1 rs2 where
    a: "scan_items rx tf cfg query n (section_items secs n) = Inr rs1"
    and b: "scan_sections rx tf cfg secs query ns = Inr rs2"
    and rs: "rs = rs1 @ rs2"
    by (auto split: sum.splits)
  from Cons.prems(2) rs have "r \<in> set rs1 \<or> r \<in> set rs2"
    by simp
  then show ?case
    using scan_items_admitted [OF a] Cons.IH [OF b] by blast
qed

lemma search_Inr:
  "search rx tf cfg secs query cat limit = Inr rs
   \<Longrightarrow> \<exists>results. scan rx tf cfg secs query cat = Inr results
         \<and> rs = slice0 (sort_results results) limit"
  by (auto simp: search_def split: sum.splits)

lemma check_terms_matched:
  "check_terms rx cfg c tlow ts (sc, mt, tp) = Inr (sc', mt', tp')
   \<Longrightarrow> mt' = mt @ filter (has_match rx c) ts"
proof (induction ts arbitrary: sc mt tp)
  case Nil
  then show ?case by simp
next
  case (Cons t ts)
  from Cons.prems obtain n where n: "rx t c = Inr n"
    by (auto split: sum.splits)
  show ?case
  proof (cases "n > 0")
    case True
    with n have hm: "has_match rx c t"
      by (simp add: has_match_def)
    from Cons.prems n True obtain sc1 tp1 where
      "check_terms rx cfg c tlow ts (sc1, mt @ [t], tp1) = Inr (sc', mt', tp')"
      by auto
    from Cons.IH [OF this] hm show ?thesis
      by simp
  next
    case False
    with n have hm: "\<not> has_match rx c t"
      by (simp add: has_match_def)
    from Cons.prems n False have
      "check_terms rx cfg c tlow ts (sc, mt, tp) = Inr (sc', mt', tp')"
      by simp
    from Cons.IH [OF this] hm show ?thesis
      by simp
  qed
qed

lemma all_terms_bonus_matched:
  "all_terms_bonus cfg terms (sc, mt, tp) = (sc', mt', tp') \<Longrightarrow> mt' = mt"
  by (auto simp: all_terms_bonus_def Let_def split: if_splits)

lemma score_item_matched:
  assumes "score_item rx tf cfg query it = Inr (t, sc, mt, tp)"
  shows "length mt = matched_entries rx query it"
proof -
  let ?c = "toLowerCase (content it)" and ?q = "toLowerCase query"
  let ?init = "if str_includes ?c ?q then (EXACT_PHRASE_BONUS cfg, [?q], []) else (0, [], [])"
  from assms obtain t' acc where
    ct: "check_terms rx cfg ?c (toLowerCase t') (words_of ?q) ?init = Inr acc"
    and fin: "all_terms_bonus cfg (words_of ?q) acc = (sc, mt, tp)"
    by (auto simp: score_item_def Let_def split: sum.splits)
  obtain sc1 mt1 tp1 where acc: "acc = (sc1, mt1, tp1)"
    by (cases acc)
  from fin have mt: "mt = mt1"
    unfolding acc by (rule all_terms_bonus_matched)
  show ?thesis
  proof (cases "str_includes ?c ?q")
    case True
    with ct have "check_terms rx cfg ?c (toLowerCase t') (words_of ?q)
                    (EXACT_PHRASE_BONUS cfg, [?q], []) = Inr (sc1, mt1, tp1)"
      by (simp add: acc)
    then have "mt1 = [?q] @ filter (has_match rx ?c) (words_of ?q)"
      by (rule check_terms_matched)
    with mt True show ?thesis
      by (simp add: matched_entries_def)
  next
    case False
    with ct have "check_terms rx cfg ?c (toLowerCase t') (words_of ?q)
                    (0, [], []) = Inr (sc1, mt1, tp1)"
      by (simp add: acc)
    then have "mt1 = [] @ filter (has_match rx ?c) (words_of ?q)"
      by (rule check_terms_matched)
    with mt False show ?thesis
      by (simp add: matched_entries_def)
  qed
qed

lemma scan_items_origin:
  "scan_items rx tf cfg query n its = Inr rs \<Longrightarrow> r \<in> set rs
   \<Longrightarrow> \<exists>it \<in> set its. matchedTerms r = matched_entries rx query it"
proof (induction its arbitrary: rs)
  case Nil
  then show ?case by simp
next
  case (Cons x xs)
  from Cons.prems(1) obtain t acc rs' where
    s: "score_item rx tf cfg query x = Inr (t, acc)"
    and r: "scan_items rx tf cfg query n xs = Inr rs'"
    and rs: "rs = (if admitted cfg acc then result_of query n t acc # rs' else rs')"
    by (auto split: sum.splits prod.splits)
  show ?case
  proof (cases "r \<in> set rs'")
    case True
    from Cons.IH [OF r True] show ?thesis
      by auto
  next
    case False
    with Cons.prems(2) rs have req: "r = result_of query n t acc"
      by (auto split: if_splits)
    obtain sc mt tp where acc: "acc = (sc, mt, tp)"
      by (cases acc)
    from s have "length mt = matched_entries rx query x"
      unfolding acc by (rule score_item_matched)
    with req acc have "matchedTerms r = matched_entries rx query x"
      by (simp add: result_of_def)
    then show ?thesis
      by auto
  qed
qed

lemma scan_sections_origin:
  "scan_sections rx tf cfg secs query ns = Inr rs \<Longrightarrow> r \<in> set rs
   \<Longrightarrow> \<exists>n \<in> set ns. \<exists>it \<in> set (section_items secs n).
         matchedTerms r = matched_entries rx query it"
proof (induction ns arbitrary: rs)
  case Nil
  then show ?case by simp
next
  case (Cons m ms)
  from Cons.prems(1) obtain rs1 rs2 where
    a: "scan_items rx tf cfg query m (section_items secs m) = Inr rs1"
    and b: "scan_sections rx tf cfg secs query ms = Inr rs2"
    and rs: "rs = rs1 @ rs2"
    by (auto split: sum.splits)
  from Cons.prems(2) rs have "r \<in> set rs1 \<or> r \<in> set rs2"
    by simp
  then show ?case
  proof
    assume "r \<in> set rs1"
    from scan_items_origin [OF a this] show ?thesis
      by auto
  next
    assume "r \<in> set rs2"
    from Cons.IH [OF b this] show ?thesis
      by auto
  qed
qed

text \<open>
  C1, as stated, fails: the admission test reads the length of \<open>matchedTerms\<close>, in
  which a query word that is repeated is entered each time. For the query
  \<open>foo foo zzz\<close> and the content \<open>foo\<close>, one distinct query term matches, the list has
  two entries, and under \<open>sample_config\<close> the item is returned with the score 10, below
  \<open>MIN_SCORE_SINGLE_TERM\<close>.
\<close>

theorem repeated_word_admitted:
  "search RegExp_count extractTitle sample_config
     [(''guides'', [\<lparr>content = ''foo'', startLine = 0\<rparr>])] ''foo foo zzz'' ''all'' 5
   = Inr [\<lparr>title = ''Untitled'', category = ''Guides & Tutorials'', score = 10,
            matchedTerms = 2, totalTerms = 3\<rparr>]
   \<and> remdups (filter (has_match RegExp_count ''foo'') (words_of ''foo foo zzz'')) = [''foo'']
   \<and> \<not> str_includes ''foo'' ''foo foo zzz''
   \<and> (10::int) < MIN_SCORE_SINGLE_TERM sample_config"
  by code_simp

text \<open>
  C1 (amended): every result that \<open>search\<close> returns has a score of at least \<open>MIN_SCORE\<close>,
  and either its matched-term count is at least two or its score is at least
  \<open>MIN_SCORE_SINGLE_TERM\<close>; the matched-term count (the field \<open>matchedTerms\<close>) is that of
  an item of a searched section, and counts one for the whole query when the content
  has it and one for each query word that has a match, a repeated query word each time
  it occurs in the query. This holds for every regular-expression engine, title
  function, configuration, corpus, query, category and limit.
\<close>

theorem search_results_meet_floor:
  assumes "search rx tf cfg secs query cat limit = Inr rs" and "r \<in> set rs"
  shows "score r \<ge> MIN_SCORE cfg
         \<and> (matchedTerms r \<ge> 2 \<or> score r \<ge> MIN_SCORE_SINGLE_TERM cfg)
         \<and> (\<exists>n \<in> set (sectionsToSearch secs cat). \<exists>it \<in> set (section_items secs n).
               matchedTerms r = matched_entries rx query it)"
proof -
  from search_Inr [OF assms(1)] obtain results where
    sc: "scan rx tf cfg secs query cat = Inr results"
    and rs: "rs = slice0 (sort_results results) limit"
    by blast
  from assms(2) rs have "r \<in> set (sort_results results)"
    using set_slice0 [of "sort_results results" limit] by auto
  then have mem: "r \<in> set results"
    by (simp add: set_sort_results)
  from sc have sc': "scan_sections rx tf cfg secs query (sectionsToSearch secs cat) = Inr results"
    by (simp add: scan_def)
  from scan_sections_admitted [OF sc' mem] scan_sections_origin [OF sc' mem]
  show ?thesis
    by blast
qed

theorem search_results_meet_floor_witness:
  "search RegExp_count extractTitle sample_config example_sections ''foo bar'' ''all'' 2 =
     Inr [\<lparr>title = ''foo and bar'', category = ''Guides & Tutorials'', score = 69,
            matchedTerms = 2, totalTerms = 2\<rparr>,
          \<lparr>title = ''bar and foo'', category = ''Guides & Tutorials'', score = 69,
            matchedTerms = 2, totalTerms = 2\<rparr>]
   \<and> (69::int) \<ge> MIN_SCORE sample_config \<and> (2::nat) \<ge> 2
   \<and> matched_entries RegExp_count ''foo bar'' \<lparr>content = ''bar and foo'', startLine = 5\<rparr> = 2"
proof -
  have h: "search RegExp_count extractTitle sample_config example_sections ''foo bar'' ''all'' 2 =
     Inr [\<lparr>title = ''foo and bar'', category = ''Guides & Tutorials'', score = 69,
            matchedTerms = 2, totalTerms = 2\<rparr>,
          \<lparr>title = ''bar and foo'', category = ''Guides & Tutorials'', score = 69,
            matchedTerms = 2, totalTerms = 2\<rparr>]"
    by code_simp
  have m: "matched_entries RegExp_count ''foo bar'' \<lparr>content = ''bar and foo'', startLine = 5\<rparr> = 2"
    by code_simp
  from search_results_meet_floor [OF h, of "\<lparr>title = ''bar and foo'', category = ''Guides & Tutorials'', score = 69,
            matchedTerms = 2, totalTerms = 2\<rparr>"] h m show ?thesis
    by simp
qed

text \<open>
  C2: the list that \<open>search\<close> returns is in order of non-increasing score, and for every
  score its results of that score are, in order, the first results of that score in the
  order of the scan: equal scores keep the scan order.
\<close>

theorem search_sorted_stable:
  assumes "search rx tf cfg secs query cat limit = Inr rs"
  shows "sorted_wrt (\<lambda>a b. score a \<ge> score b) rs
         \<and> (\<exists>results. scan rx tf cfg secs query cat = Inr results
              \<and> (\<forall>v. prefix (filter (\<lambda>r. score r = v) rs)
                            (filter (\<lambda>r. score r = v) results)))"
proof -
  from search_Inr [OF assms] obtain results where
    sc: "scan rx tf cfg secs query cat = Inr results"
    and rs: "rs = slice0 (sort_results results) limit"
    by blast
  obtain k where k: "rs = take k (sort_results results)"
    using rs slice0_take by blast
  have "sorted_wrt (\<lambda>a b. score a \<ge> score b) rs"
    unfolding k by (rule sorted_wrt_take) (rule sorted_sort_results)
  moreover have "prefix (filter (\<lambda>r. score r = v) rs) (filter (\<lambda>r. score r = v) results)" for v
    unfolding k using prefix_filter_take [of "\<lambda>r. score r = v" k "sort_results results"]
    by (simp add: filter_sort_results)
  ultimately show ?thesis
    using sc by blast
qed

text \<open>
  C10: for a category other than \<open>all\<close>, \<open>api\<close>, \<open>guides\<close> and \<open>community\<close>, no section
  is searched and \<open>search\<close> returns the empty list, whatever the query and the limit.
\<close>

theorem search_unknown_category_empty:
  assumes "cat \<notin> {''all'', ''api'', ''guides'', ''community''}"
  shows "sectionsToSearch secs cat = []
         \<and> search rx tf cfg secs query cat limit = Inr []"
proof -
  from assms have "cat \<noteq> ''all''" "cat \<noteq> ''api''" "cat \<noteq> ''guides''" "cat \<noteq> ''community''"
    by blast+
  then have "sectionsToSearch secs cat = []"
    unfolding sectionsToSearch_def by (simp only: if_False)
  then show ?thesis
    by (simp add: search_def scan_def sort_results_def slice0_def)
qed

theorem deprecation_lookup_witness:
  "toLowerCase ''ArrayProxy'' = toLowerCase ''ARRAYPROXY''
   \<and> getDeprecationInfo new_DeprecationManager ''ArrayProxy'' = Some known_ArrayProxy
   \<and> getDeprecationInfo new_DeprecationManager ''ARRAYPROXY'' = Some known_ArrayProxy
   \<and> getDeprecationInfo
        (registerDeprecation new_DeprecationManager ''ArrayProxy'' (Some detected_ArrayProxy))
        ''arrayproxy'' = Some detected_ArrayProxy
   \<and> isDeprecated
        (registerDeprecation new_DeprecationManager ''ArrayProxy'' (Some detected_ArrayProxy))
        ''arrayproxy''"
proof -
  have e1: "toLowerCase ''ArrayProxy'' = toLowerCase ''ARRAYPROXY''"
    and e2: "''ArrayProxy'' \<noteq> [] \<and> toLowerCase ''arrayproxy'' = toLowerCase ''ArrayProxy''"
    by (simp_all add: toLowerCase_def lower_char_def)
  have k: "getDeprecationInfo new_DeprecationManager ''ArrayProxy'' = Some known_ArrayProxy"
    by (simp add: getDeprecationInfo_def new_DeprecationManager_def toLowerCase_def lower_char_def)
  from deprecation_lookup_case_insensitive_content_first
         [of "''ArrayProxy''" "''ARRAYPROXY''" new_DeprecationManager "''ArrayProxy''" undefined
             "''arrayproxy''" detected_ArrayProxy]
       e1 e2 k
  show ?thesis
    by simp
qed

theorem search_sorted_stable_witness:
  "search RegExp_count extractTitle sample_config example_sections ''foo bar'' ''all'' 5 =
     Inr [\<lparr>title = ''foo and bar'', category = ''Guides & Tutorials'', score = 69,
            matchedTerms = 2, totalTerms = 2\<rparr>,
          \<lparr>title = ''bar and foo'', category = ''Guides & Tutorials'', score = 69,
            matchedTerms = 2, totalTerms = 2\<rparr>,
          \<lparr>title = ''Untitled'', category = ''Guides & Tutorials'', score = 60,
            matchedTerms = 3, totalTerms = 2\<rparr>]
   \<and> scan RegExp_count extractTitle sample_config example_sections ''foo bar'' ''all'' =
     Inr [\<lparr>title = ''foo and bar'', category = ''Guides & Tutorials'', score = 69,
            matchedTerms = 2, totalTerms = 2\<rparr>,
          \<lparr>title = ''Untitled'', category = ''Guides & Tutorials'', score = 60,
            matchedTerms = 3, totalTerms = 2\<rparr>,
          \<lparr>title = ''bar and foo'', category = ''Guides & Tutorials'', score = 69,
            matchedTerms = 2, totalTerms = 2\<rparr>]
   \<and> sorted_wrt (\<lambda>a b. score a \<ge> score b)
        [\<lparr>title = ''foo and bar'', category = ''Guides & Tutorials'', score = 69,
            matchedTerms = 2, totalTerms = 2\<rparr>,
          \<lparr>title = ''bar and foo'', category = ''Guides & Tutorials'', score = 69,
            matchedTerms = 2, totalTerms = 2\<rparr>,
          \<lparr>title = ''Untitled'', category = ''Guides & Tutorials'', score = 60,
            matchedTerms = 3, totalTerms = 2\<rparr>]"
proof -
  have h: "search RegExp_count extractTitle sample_config example_sections ''foo bar'' ''all'' 5 =
     Inr [\<lparr>title = ''foo and bar'', category = ''Guides & Tutorials'', score = 69,
            matchedTerms = 2, totalTerms = 2\<rparr>,
          \<lparr>title = ''bar and foo'', category = ''Guides & Tutorials'', score = 69,
            matchedTerms = 2, totalTerms = 2\<rparr>,
          \<lparr>title = ''Untitled'', category = ''Guides & Tutorials'', score = 60,
            matchedTerms = 3, totalTerms = 2\<rparr>]"
    by code_simp
  have s: "scan RegExp_count extractTitle sample_config example_sections ''foo bar'' ''all'' =
     Inr [\<lparr>title = ''foo and bar'', category = ''Guides & Tutorials'', score = 69,
            matchedTerms = 2, totalTerms = 2\<rparr>,
          \<lparr>title = ''Untitled'', category = ''Guides & Tutorials'', score = 60,
            matchedTerms = 3, totalTerms = 2\<rparr>,
          \<lparr>title = ''bar and foo'', category = ''Guides & Tutorials'', score = 69,
            matchedTerms = 2, totalTerms = 2\<rparr>]"
    by code_simp
  from search_sorted_stable [OF h] h s show ?thesis
    by simp
qed

theorem search_unknown_category_witness:
  "''bogus'' \<notin> {''all'', ''api'', ''guides'', ''community''}
   \<and> search RegExp_count extractTitle sample_config example_sections ''foo bar'' ''bogus'' 5
       = Inr []"
proof -
  have h: "''bogus'' \<notin> {''all'', ''api'', ''guides'', ''community''}"
    by simp
  from search_unknown_category_empty [OF h] h show ?thesis
    by simp
qed

text \<open>
  C5 fails on the code: a query term is handed to the \<open>RegExp\<close> constructor as it is, and
  for each of the queries \<open>(\<close>, \<open>+\<close> and \<open>[\<close> the constructor throws a \<open>SyntaxError\<close> as
  soon as one item is scanned, under every configuration.
\<close>

theorem search_metacharacter_throws:
  "search RegExp_count extractTitle cfg
     [(''guides'', [\<lparr>content = ''Routing guide'', startLine = 0\<rparr>])] ''('' ''all'' 5
   = Inl SyntaxError
   \<and> search RegExp_count extractTitle cfg
     [(''guides'', [\<lparr>content = ''Routing guide'', startLine = 0\<rparr>])] ''+'' ''all'' 5
   = Inl SyntaxError
   \<and> search RegExp_count extractTitle cfg
     [(''guides'', [\<lparr>content = ''Routing guide'', startLine = 0\<rparr>])] ''['' ''all'' 5
   = Inl SyntaxError"
  by (simp add: search_def scan_def sectionsToSearch_def section_items_def score_item_def
      toLowerCase_def lower_char_def words_of_def is_space_def extractTitle_def lines_of_def
      header_title_def trim_def RegExp_count_def syntax_chars_def rejected_pattern_def
      sentence_of_def isGeneric_def generic_prefixes_def)

text \<open>
  C3 fails on the code: for the query \<open>foo bar\<close>, an item that contains the query verbatim
  has three entries in \<open>matchedTerms\<close> (the phrase and the two terms), which is not the
  number of query terms, and its score has no all-terms bonus; an item with both words
  and without the phrase has the bonus.
\<close>

theorem phrase_match_loses_all_terms_bonus:
  "score_item RegExp_count extractTitle cfg ''foo bar'' \<lparr>content = ''foo bar'', startLine = 0\<rparr>
     = Inr (''Untitled'',
            EXACT_PHRASE_BONUS cfg + TERM_MATCH_WEIGHT cfg + TERM_MATCH_WEIGHT cfg,
            [''foo bar'', ''foo'', ''bar''], [(''foo'', 0), (''bar'', 4)])
   \<and> score_item RegExp_count extractTitle cfg ''foo bar'' \<lparr>content = ''foo, bar'', startLine = 0\<rparr>
     = Inr (''Untitled'',
            TERM_MATCH_WEIGHT cfg + TERM_MATCH_WEIGHT cfg + ALL_TERMS_BONUS cfg
              + (if 5 < PROXIMITY_THRESHOLD cfg
                 then (PROXIMITY_THRESHOLD cfg - 5) div PROXIMITY_BONUS_DIVISOR cfg else 0),
            [''foo'', ''bar''], [(''foo'', 0), (''bar'', 5)])"
  by (simp add: score_item_def Let_def
      toLowerCase_def lower_char_def words_of_def is_space_def extractTitle_def lines_of_def
      header_title_def trim_def RegExp_count_def syntax_chars_def all_terms_bonus_def sentence_of_def isGeneric_def generic_prefixes_def)

section \<open>Properties of the excerpt window\<close>




lemma length_sizes [simp]: "length (sizes ps) = length ps"
  by (induction ps) simp_all

lemma clusterSize_pos: "clusterSize p qs \<ge> 1"
  by (cases qs) simp_all

lemma clusterSize_sorted:
  "sorted (p # qs) \<Longrightarrow> clusterSize p qs = Suc (length (filter (\<lambda>q. int q - int p < 500) qs))"
proof (induction qs)
  case Nil
  then show ?case by simp
next
  case (Cons q qs)
  show ?case
  proof (cases "int q - int p < 500")
    case True
    from Cons.prems have "sorted (p # qs)"
      by auto
    with Cons.IH True show ?thesis
      by simp
  next
    case False
    from Cons.prems have "\<forall>q' \<in> set qs. q \<le> q'"
      by simp
    with False have "filter (\<lambda>q. int q - int p < 500) qs = []"
      by (auto simp: filter_empty_conv)
    with False show ?thesis
      by simp
  qed
qed

lemma sizes_nth:
  "k < length ps \<Longrightarrow> sizes ps ! k = clusterSize (ps ! k) (drop (Suc k) ps)"
proof (induction ps arbitrary: k)
  case Nil
  then show ?case by simp
next
  case (Cons p ps)
  then show ?case
    by (cases k) simp_all
qed

lemma sizes_window_hits:
  assumes "sorted ps" and "k < length ps"
  shows "sizes ps ! k = window_hits ps k"
proof -
  have d: "drop k ps = ps ! k # drop (Suc k) ps"
    using assms(2) by (simp add: Cons_nth_drop_Suc)
  from assms(1) have "sorted (drop k ps)"
    by (rule sorted_wrt_drop)
  with d have "sorted (ps ! k # drop (Suc k) ps)"
    by simp
  then have "clusterSize (ps ! k) (drop (Suc k) ps)
               = Suc (length (filter (\<lambda>q. int q - int (ps ! k) < 500) (drop (Suc k) ps)))"
    by (rule clusterSize_sorted)
  then show ?thesis
    using assms(2) by (simp add: sizes_nth window_hits_def d)
qed

lemma bestCluster_first_max:
  "bestCluster ps (b, d) = (b', d') \<Longrightarrow>
     (b' = b \<and> d' = d \<and> (\<forall>k<length ps. sizes ps ! k \<le> d))
     \<or> (\<exists>i<length ps. b' = ps ! i \<and> d' = sizes ps ! i \<and> d < d'
           \<and> (\<forall>k<length ps. sizes ps ! k \<le> d') \<and> (\<forall>k<i. sizes ps ! k < d'))"
proof (induction ps arbitrary: b d)
  case Nil
  then show ?case by simp
next
  case (Cons p ps)
  let ?c = "clusterSize p ps"
  show ?case
  proof (cases "?c > d")
    case True
    with Cons.prems have r: "bestCluster ps (p, ?c) = (b', d')"
      by simp
    from Cons.IH [OF r] show ?thesis
    proof
      assume a: "b' = p \<and> d' = ?c \<and> (\<forall>k<length ps. sizes ps ! k \<le> ?c)"
      have "\<forall>k<length (p # ps). sizes (p # ps) ! k \<le> d'"
        using a by (auto simp: nth_Cons split: nat.splits)
      with a True have "0 < length (p # ps) \<and> b' = (p # ps) ! 0 \<and> d' = sizes (p # ps) ! 0 \<and> d < d'
        \<and> (\<forall>k<length (p # ps). sizes (p # ps) ! k \<le> d') \<and> (\<forall>k<0. sizes (p # ps) ! k < d')"
        by simp
      then show ?thesis
        by blast
    next
      assume "\<exists>i<length ps. b' = ps ! i \<and> d' = sizes ps ! i \<and> ?c < d'
           \<and> (\<forall>k<length ps. sizes ps ! k \<le> d') \<and> (\<forall>k<i. sizes ps ! k < d')"
      then obtain i where i: "i < length ps" "b' = ps ! i" "d' = sizes ps ! i" "?c < d'"
        "\<forall>k<length ps. sizes ps ! k \<le> d'" "\<forall>k<i. sizes ps ! k < d'"
        by blast
      have "\<forall>k<length (p # ps). sizes (p # ps) ! k \<le> d'"
        using i(4,5) by (auto simp: nth_Cons split: nat.splits)
      moreover have "\<forall>k<Suc i. sizes (p # ps) ! k < d'"
        using i(4,6) by (auto simp: nth_Cons split: nat.splits)
      ultimately have "Suc i < length (p # ps) \<and> b' = (p # ps) ! Suc i
        \<and> d' = sizes (p # ps) ! Suc i \<and> d < d'
        \<and> (\<forall>k<length (p # ps). sizes (p # ps) ! k \<le> d') \<and> (\<forall>k<Suc i. sizes (p # ps) ! k < d')"
        using i(1,2,3,4) True by simp
      then show ?thesis
        by blast
    qed
  next
    case False
    with Cons.prems have r: "bestCluster ps (b, d) = (b', d')"
      by simp
    from Cons.IH [OF r] show ?thesis
    proof
      assume a: "b' = b \<and> d' = d \<and> (\<forall>k<length ps. sizes ps ! k \<le> d)"
      have "\<forall>k<length (p # ps). sizes (p # ps) ! k \<le> d"
        using a False by (auto simp: nth_Cons split: nat.splits)
      with a show ?thesis
        by blast
    next
      assume "\<exists>i<length ps. b' = ps ! i \<and> d' = sizes ps ! i \<and> d < d'
           \<and> (\<forall>k<length ps. sizes ps ! k \<le> d') \<and> (\<forall>k<i. sizes ps ! k < d')"
      then obtain i where i: "i < length ps" "b' = ps ! i" "d' = sizes ps ! i" "d < d'"
        "\<forall>k<length ps. sizes ps ! k \<le> d'" "\<forall>k<i. sizes ps ! k < d'"
        by blast
      have "\<forall>k<length (p # ps). sizes (p # ps) ! k \<le> d'"
        using i(4,5) False by (auto simp: nth_Cons split: nat.splits)
      moreover have "\<forall>k<Suc i. sizes (p # ps) ! k < d'"
        using i(4,6) False by (auto simp: nth_Cons split: nat.splits)
      ultimately have "Suc i < length (p # ps) \<and> b' = (p # ps) ! Suc i
        \<and> d' = sizes (p # ps) ! Suc i \<and> d < d'
        \<and> (\<forall>k<length (p # ps). sizes (p # ps) ! k \<le> d') \<and> (\<forall>k<Suc i. sizes (p # ps) ! k < d')"
        using i(1,2,3,4) by simp
      then show ?thesis
        by blast
    qed
  qed
qed


text \<open>
  C6, as stated, fails: for hits at 0, 499, 998, 1000 and 1001 all consecutive gaps are
  below 500, so the run of the specification is the whole list and starts at 0, while
  the code counts from each hit the hits less than 500 after it and anchors the window
  at 998.
\<close>

theorem excerpt_cluster_is_not_gap_run:
  "excerpt_window (replicate 2000 (CHR ''x'')) example_hits = Some (998, 848, 1398)
   \<and> spec_cluster_start example_hits = Some 0"
  by code_simp

text \<open>
  C6 (amended): given a non-empty list of term hit positions, the excerpt extractor sorts
  them by position and selects the hit \<open>i\<close> with the most hits from \<open>i\<close> on that lie
  less than 500 characters after hit \<open>i\<close>, the earliest such hit on ties; the window is
  anchored at that hit: it starts 150 characters before it (at 0 if there are fewer) and
  ends 400 characters after it (at the end of the content if there are fewer).
\<close>

theorem excerpt_anchored_at_densest_window:
  assumes "termPositions \<noteq> []"
  shows "\<exists>i. let ps = map snd (sort_key snd termPositions)
             in i < length ps \<and> sorted ps
                \<and> excerpt_window c termPositions =
                    Some (ps ! i, ps ! i - 150, min (length c) (ps ! i + 400))
                \<and> (\<forall>k<length ps. window_hits ps k \<le> window_hits ps i)
                \<and> (\<forall>k<i. window_hits ps k < window_hits ps i)"
proof -
  define ps where "ps = map snd (sort_key snd termPositions)"
  have srt: "sorted ps"
    unfolding ps_def by (rule sorted_sort_key)
  have "length ps = length termPositions"
    by (simp add: ps_def)
  with assms have ne: "ps \<noteq> []"
    by auto
  then have len: "0 < length ps"
    by simp
  have "hd ps = snd (hd (sort_key snd termPositions))"
    using ne unfolding ps_def by (simp add: hd_map)
  then have hd: "snd (hd (sort_key snd termPositions)) = ps ! 0"
    using ne by (simp add: hd_conv_nth)
  obtain b' d' where bc: "bestCluster ps (ps ! 0, 1) = (b', d')"
    by (cases "bestCluster ps (ps ! 0, 1)")
  have win: "excerpt_window c termPositions = Some (b', b' - 150, min (length c) (b' + 400))"
    using assms bc hd by (simp add: excerpt_window_def Let_def ps_def)
  have ge1: "sizes ps ! k \<ge> 1" if "k < length ps" for k
    using that clusterSize_pos [of "ps ! k" "drop (Suc k) ps"] by (simp add: sizes_nth)
  have "\<exists>i<length ps. b' = ps ! i \<and> (\<forall>k<length ps. sizes ps ! k \<le> sizes ps ! i)
          \<and> (\<forall>k<i. sizes ps ! k < sizes ps ! i)"
    using bestCluster_first_max [OF bc]
  proof
    assume a: "b' = ps ! 0 \<and> d' = 1 \<and> (\<forall>k<length ps. sizes ps ! k \<le> 1)"
    then have "\<forall>k<length ps. sizes ps ! k \<le> sizes ps ! 0"
      using ge1 [OF len] by auto
    with a len show ?thesis
      by blast
  next
    assume "\<exists>i<length ps. b' = ps ! i \<and> d' = sizes ps ! i \<and> 1 < d'
           \<and> (\<forall>k<length ps. sizes ps ! k \<le> d') \<and> (\<forall>k<i. sizes ps ! k < d')"
    then show ?thesis
      by blast
  qed
  then obtain i where i: "i < length ps" "b' = ps ! i"
    "\<forall>k<length ps. sizes ps ! k \<le> sizes ps ! i" "\<forall>k<i. sizes ps ! k < sizes ps ! i"
    by blast
  have "\<forall>k<length ps. window_hits ps k \<le> window_hits ps i"
    using i(1,3) by (simp add: sizes_window_hits [OF srt, symmetric])
  moreover have "\<forall>k<i. window_hits ps k < window_hits ps i"
    using i(1,4) by (simp add: sizes_window_hits [OF srt, symmetric])
  ultimately have "i < length ps \<and> sorted ps
      \<and> excerpt_window c termPositions = Some (ps ! i, ps ! i - 150, min (length c) (ps ! i + 400))
      \<and> (\<forall>k<length ps. window_hits ps k \<le> window_hits ps i)
      \<and> (\<forall>k<i. window_hits ps k < window_hits ps i)"
    using i(1,2) srt win by simp
  then show ?thesis
    unfolding ps_def Let_def by blast
qed

theorem excerpt_anchored_witness:
  "example_hits \<noteq> []
   \<and> (\<exists>i. let ps = map snd (sort_key snd example_hits)
             in i < length ps \<and> sorted ps
                \<and> excerpt_window ''Ember Data'' example_hits =
                    Some (ps ! i, ps ! i - 150, min (length ''Ember Data'') (ps ! i + 400))
                \<and> (\<forall>k<length ps. window_hits ps k \<le> window_hits ps i)
                \<and> (\<forall>k<i. window_hits ps k < window_hits ps i))"
proof -
  have h: "example_hits \<noteq> []"
    by (simp add: example_hits_def)
  from excerpt_anchored_at_densest_window [OF h, of "''Ember Data''"] h show ?thesis
    by blast
qed

section \<open>Properties of the segmentation\<close>




lemma fst_append_item:
  "set (map fst (append_item secs n it)) = insert n (set (map fst secs))"
proof (induction secs)
  case Nil
  then show ?case by simp
next
  case (Cons a secs)
  obtain m its where a: "a = (m, its)"
    by (cases a)
  from Cons show ?case
    unfolding a by (cases "m = n") auto
qed

lemma distinct_fst_append_item:
  "distinct (map fst secs) \<Longrightarrow> distinct (map fst (append_item secs n it))"
proof (induction secs)
  case Nil
  then show ?case by simp
next
  case (Cons a secs)
  obtain m its where a: "a = (m, its)"
    by (cases a)
  show ?case
  proof (cases "m = n")
    case True
    with Cons.prems a show ?thesis by simp
  next
    case False
    have "m \<notin> set (map fst (append_item secs n it))"
      using Cons.prems a False by (simp only: fst_append_item) auto
    with Cons a False show ?thesis
      by simp
  qed
qed

lemma all_items_simps [simp]:
  "all_items [] = []" "all_items ((m, its) # rest) = its @ all_items rest"
  by (simp_all add: all_items_def)

lemma items_append_item:
  "set (all_items (append_item secs n it)) = insert it (set (all_items secs))"
proof (induction secs)
  case Nil
  then show ?case by simp
next
  case (Cons a secs)
  obtain m its where a: "a = (m, its)"
    by (cases a)
  from Cons show ?case
    unfolding a by (cases "m = n") auto
qed

lemma distinct_startLine_append_item:
  "distinct (map startLine (all_items secs))
   \<Longrightarrow> \<forall>x \<in> set (all_items secs). startLine x \<noteq> startLine it
   \<Longrightarrow> distinct (map startLine (all_items (append_item secs n it)))"
proof (induction secs)
  case Nil
  then show ?case by simp
next
  case (Cons a secs)
  obtain m its where a: "a = (m, its)"
    by (cases a)
  from Cons.prems have p: "distinct (map startLine its)"
    "distinct (map startLine (all_items secs))"
    "startLine ` set its \<inter> startLine ` set (all_items secs) = {}"
    "\<forall>x \<in> set its. startLine x \<noteq> startLine it"
    "\<forall>x \<in> set (all_items secs). startLine x \<noteq> startLine it"
    unfolding a by auto
  show ?case
  proof (cases "m = n")
    case True
    with p show ?thesis
      unfolding a by auto
  next
    case False
    have d: "distinct (map startLine (all_items (append_item secs n it)))"
      using Cons.IH p(2,5) by blast
    have "startLine ` set its \<inter> startLine ` set (all_items (append_item secs n it)) = {}"
      unfolding items_append_item using p(3,4) by auto
    with p(1) d False show ?thesis
      unfolding a by simp
  qed
qed

lemma section_items_append_same:
  "section_items (append_item secs n it) n = section_items secs n @ [it]"
proof (induction secs)
  case Nil
  then show ?case by (simp add: section_items_def)
next
  case (Cons a secs)
  obtain m its where a: "a = (m, its)"
    by (cases a)
  from Cons show ?case
    unfolding a by (cases "m = n") (simp_all add: section_items_def)
qed

lemma section_items_Cons:
  "section_items ((m, its) # secs) n = (if n = m then its else section_items secs n)"
  by (simp add: section_items_def)

lemma section_items_subset:
  "set (section_items secs n) \<subseteq> set (all_items secs)"
proof (induction secs)
  case Nil
  then show ?case by (simp add: section_items_def all_items_def)
next
  case (Cons a secs)
  obtain m its where a: "a = (m, its)"
    by (cases a)
  show ?case
  proof (cases "n = m")
    case True
    then show ?thesis
      unfolding a by (simp add: section_items_Cons all_items_def)
  next
    case False
    with Cons show ?thesis
      unfolding a by (auto simp add: section_items_Cons all_items_def)
  qed
qed

lemma item_in_one_section:
  "distinct (all_items secs) \<Longrightarrow> it \<in> set (section_items secs n)
   \<Longrightarrow> it \<in> set (section_items secs n') \<Longrightarrow> n = n'"
proof (induction secs)
  case Nil
  then show ?case by (simp add: section_items_def)
next
  case (Cons a secs)
  obtain m its where a: "a = (m, its)"
    by (cases a)
  have sub: "set (section_items secs k) \<subseteq> set (all_items secs)" for k
    by (rule section_items_subset)
  have hd: "section_items (a # secs) k = (if k = m then its else section_items secs k)" for k
    by (simp add: section_items_def a)
  from Cons.prems(1) have disj: "set its \<inter> set (all_items secs) = {}"
    and dist: "distinct (all_items secs)"
    unfolding a by auto
  show ?case
  proof (cases "n = m")
    case True
    show ?thesis
    proof (cases "n' = m")
      case True
      with \<open>n = m\<close> show ?thesis by simp
    next
      case False
      with Cons.prems(2,3) True hd have "it \<in> set its" and "it \<in> set (section_items secs n')"
        by auto
      with sub [of n'] disj show ?thesis
        by auto
    qed
  next
    case False
    show ?thesis
    proof (cases "n' = m")
      case True
      with Cons.prems(2,3) False hd have "it \<in> set its" and "it \<in> set (section_items secs n)"
        by auto
      with sub [of n] disj show ?thesis
        by auto
    next
      case False
      with Cons.prems(2,3) \<open>n \<noteq> m\<close> hd have "it \<in> set (section_items secs n)"
        and "it \<in> set (section_items secs n')"
        by auto
      with Cons.IH dist show ?thesis
        by blast
    qed
  qed
qed

lemma save_item_inv:
  assumes "parse_inv i s" and "save_item s = Inr secs"
  shows "distinct (map fst secs) \<and> distinct (map startLine (all_items secs))
         \<and> (currentSection s \<noteq> None \<longrightarrow> (\<forall>it \<in> set (all_items secs). startLine it < i))
         \<and> (currentSection s = None \<longrightarrow> secs = [])"
proof (cases "currentSection s")
  case None
  with assms show ?thesis
    by (simp add: parse_inv_def save_item_def)
next
  case (Some c)
  with assms(1) have inv: "distinct (map fst (sections_of s))"
    "distinct (map startLine (all_items (sections_of s)))"
    "c \<le> i" "currentContent s \<noteq> [] \<longrightarrow> c < i"
    "\<forall>it \<in> set (all_items (sections_of s)). startLine it < c"
    by (simp_all add: parse_inv_def)
  show ?thesis
  proof (cases "currentContent s = []")
    case True
    with assms(2) Some have secs: "secs = sections_of s"
      by (simp add: save_item_def)
    have "\<forall>it \<in> set (all_items secs). startLine it < i"
      unfolding secs using inv(3,5) by fastforce
    with inv(1,2) Some show ?thesis
      unfolding secs by simp
  next
    case False
    define it where "it = \<lparr>content = join_lines (currentContent s), startLine = c\<rparr>"
    from assms(2) Some False have secs: "secs = append_item (sections_of s) (sectionName s) it"
      by (auto simp: save_item_def push_item_def it_def split: if_splits)
    have sl: "startLine it = c"
      by (simp add: it_def)
    have "distinct (map fst secs)"
      unfolding secs using inv(1) by (rule distinct_fst_append_item)
    moreover have "distinct (map startLine (all_items secs))"
      unfolding secs using inv(2)
    proof (rule distinct_startLine_append_item)
      show "\<forall>x \<in> set (all_items (sections_of s)). startLine x \<noteq> startLine it"
        using inv(5) sl by auto
    qed
    moreover have "\<forall>x \<in> set (all_items secs). startLine x < i"
      unfolding secs items_append_item using inv(4,5) False sl by auto
    ultimately show ?thesis
      using Some by simp
  qed
qed

lemma parse_line_inv:
  assumes "parse_inv i s" and "parse_line i line s = Inr s'"
  shows "parse_inv (Suc i) s'"
proof (cases "is_section_header line")
  case True
  with assms(2) obtain secs where sv: "save_item s = Inr secs"
    and s': "s' = \<lparr>currentSection = Some i, currentContent = [line],
                   sectionName = trim (drop 2 line), sections_of = secs\<rparr>"
    by (auto simp: parse_line_def split: sum.splits)
  from save_item_inv [OF assms(1) sv] show ?thesis
    unfolding s' parse_inv_def by (cases "currentSection s") auto
next
  case False
  show ?thesis
  proof (cases "closes_item s line")
    case True
    with assms(2) False obtain secs where sv: "save_item s = Inr secs"
      and s': "s' = s\<lparr>sections_of := secs, currentSection := Some (i + 1), currentContent := []\<rparr>"
      by (auto simp: parse_line_def split: sum.splits)
    from True have "currentSection s \<noteq> None"
      by (simp add: closes_item_def)
    with save_item_inv [OF assms(1) sv] have "distinct (map fst secs)"
      "distinct (map startLine (all_items secs))"
      "\<forall>it \<in> set (all_items secs). startLine it < i"
      by simp_all
    moreover from this(3) have "\<forall>it \<in> set (all_items secs). startLine it < Suc i"
      by fastforce
    ultimately show ?thesis
      unfolding s' parse_inv_def by simp
  next
    case nc: False
    show ?thesis
    proof (cases "currentSection s")
      case None
      with assms False nc show ?thesis
        by (auto simp: parse_line_def parse_inv_def)
    next
      case (Some c)
      with assms(2) False nc have s': "s' = s\<lparr>currentContent := currentContent s @ [line]\<rparr>"
        by (simp add: parse_line_def)
      from assms(1) Some show ?thesis
        unfolding s' parse_inv_def by auto
    qed
  qed
qed

lemma parse_lines_inv:
  "parse_inv i s \<Longrightarrow> parse_lines i ls s = Inr s' \<Longrightarrow> parse_inv (i + length ls) s'"
proof (induction ls arbitrary: i s)
  case Nil
  then show ?case by simp
next
  case (Cons line ls)
  from Cons.prems(2) obtain s1 where a: "parse_line i line s = Inr s1"
    and b: "parse_lines (Suc i) ls s1 = Inr s'"
    by (auto split: sum.splits)
  from parse_line_inv [OF Cons.prems(1) a] have "parse_inv (Suc i) s1" .
  from Cons.IH [OF this b] show ?case
    by simp
qed

lemma parseDocumentation_distinct:
  assumes "parseDocumentation text = Inr secs"
  shows "distinct (map fst secs) \<and> distinct (map startLine (all_items secs))"
proof -
  from assms obtain s where p: "parse_lines 0 (lines_of text) initial_state = Inr s"
    and sv: "save_item s = Inr secs"
    by (auto simp: parseDocumentation_def split: sum.splits)
  have "parse_inv 0 initial_state"
    by (simp add: parse_inv_def initial_state_def)
  from parse_lines_inv [OF this p] have "parse_inv (0 + length (lines_of text)) s" .
  from save_item_inv [OF this sv] show ?thesis
    by simp
qed


lemma header_cases:
  assumes "is_section_header hdr"
  obtains rest where "hdr = CHR ''#'' # CHR '' '' # rest" and "rest \<noteq> []"
    and "\<forall>c \<in> set rest. c \<in> set section_name_chars"
proof (cases hdr)
  case Nil
  with assms show ?thesis
    by (simp add: is_section_header_def)
next
  case outer: (Cons c1 t1)
  show ?thesis
  proof (cases t1)
    case Nil
    with assms outer show ?thesis
      by (simp add: is_section_header_def)
  next
    case (Cons c2 rest)
    with assms outer have "c1 = CHR ''#'' \<and> c2 = CHR '' '' \<and> rest \<noteq> []
        \<and> (\<forall>c \<in> set rest. c \<in> set section_name_chars)"
      by (simp add: is_section_header_def)
    with Cons outer that show ?thesis
      by blast
  qed
qed

lemma separator_not_header: "is_separator line \<Longrightarrow> \<not> is_section_header line"
proof
  assume s: "is_separator line" and h: "is_section_header line"
  from h obtain rest where "line = CHR ''#'' # CHR '' '' # rest"
    by (rule header_cases)
  then have "CHR ''#'' \<in> set line"
    by simp
  with s have "CHR ''#'' = CHR ''-''"
    unfolding is_separator_def by blast
  then show False
    by simp
qed


lemma dropWhile_none: "\<forall>c \<in> set s. \<not> P c \<Longrightarrow> dropWhile P s = s"
  by (cases s) auto

lemma trim_no_space: "\<forall>c \<in> set s. \<not> is_space c \<Longrightarrow> trim s = s"
  by (simp add: trim_def dropWhile_none)

lemma space_not_name_char: "is_space c \<Longrightarrow> c \<notin> set section_name_chars"
proof -
  assume "is_space c"
  then consider "c = CHR 0x09" | "c = CHR 0x0A" | "c = CHR 0x0B" | "c = CHR 0x0C"
    | "c = CHR 0x0D" | "c = CHR '' ''"
    by (auto simp: is_space_def)
  then show ?thesis
    by cases (simp_all add: section_name_chars_def)
qed

lemma header_name: "is_section_header hdr \<Longrightarrow> trim (drop 2 hdr) = drop 2 hdr"
proof -
  assume "is_section_header hdr"
  then obtain rest where hdr: "hdr = CHR ''#'' # CHR '' '' # rest"
    and "\<forall>c \<in> set rest. c \<in> set section_name_chars"
    by (rule header_cases)
  then have "\<forall>c \<in> set rest. \<not> is_space c"
    using space_not_name_char by blast
  then have "trim rest = rest"
    by (rule trim_no_space)
  then show ?thesis
    by (simp add: hdr)
qed

lemma push_item_ok: "n \<noteq> ''constructor'' \<Longrightarrow> push_item secs n it = Inr (append_item secs n it)"
  unfolding push_item_def by (rule if_not_P)

lemma section_items_append_other:
  "m \<noteq> n \<Longrightarrow> section_items (append_item secs m it) n = section_items secs n"
proof (induction secs)
  case Nil
  then show ?case by (simp add: section_items_def)
next
  case (Cons a secs)
  obtain k its where a: "a = (k, its)"
    by (cases a)
  from Cons show ?case
    unfolding a by (cases "k = m") (simp_all add: section_items_Cons)
qed

lemma push_item_Inr:
  assumes "push_item secs m it = Inr x"
  shows "x = append_item secs m it"
proof (cases "m = ''constructor''")
  case True
  then have "push_item secs m it = Inl TypeError"
    unfolding push_item_def by (rule if_P)
  with assms show ?thesis
    by simp
next
  case False
  then have "push_item secs m it = Inr (append_item secs m it)"
    by (rule push_item_ok)
  with assms show ?thesis
    by simp
qed

lemma save_item_count:
  assumes "save_item s = Inr secs"
  shows "length (section_items secs n)
           = length (section_items (sections_of s) n)
             + (if currentSection s \<noteq> None \<and> currentContent s \<noteq> [] \<and> sectionName s = n
                then 1 else 0)"
proof (cases "currentSection s")
  case None
  with assms show ?thesis
    by (simp add: save_item_def)
next
  case (Some c)
  show ?thesis
  proof (cases "currentContent s = []")
    case True
    with assms Some show ?thesis
      by (simp add: save_item_def)
  next
    case False
    let ?it = "\<lparr>content = join_lines (currentContent s), startLine = c\<rparr>"
    from assms Some False have "push_item (sections_of s) (sectionName s) ?it = Inr secs"
      by (simp add: save_item_def)
    then have secs: "secs = append_item (sections_of s) (sectionName s) ?it"
      by (rule push_item_Inr)
    show ?thesis
    proof (cases "sectionName s = n")
      case True
      with Some False show ?thesis
        unfolding secs by (simp add: section_items_append_same)
    next
      case nf: False
      with Some False show ?thesis
        unfolding secs by (simp add: section_items_append_other)
    qed
  qed
qed

lemma section_count_Cons:
  "section_count n (line # ls) =
     (if is_section_header line \<and> drop 2 line = n
      then block_count (takeWhile (\<lambda>l. \<not> is_section_header l) ls) else 0)
     + section_count n ls"
  by (simp add: section_count_def)

lemma parse_count:
  "parse_lines i ls s = Inr s' \<Longrightarrow> save_item s' = Inr secs
   \<Longrightarrow> length (section_items secs n)
         = length (section_items (sections_of s) n) + pending s ls n"
proof (induction ls arbitrary: i s)
  case Nil
  from Nil.prems have sv: "save_item s = Inr secs"
    by simp
  show ?case
    using save_item_count [OF sv, of n]
    by (cases "currentSection s") (auto simp: pending_def section_count_def)
next
  case (Cons line ls)
  from Cons.prems(1) obtain s1 where step: "parse_line i line s = Inr s1"
    and rest: "parse_lines (Suc i) ls s1 = Inr s'"
    by (auto split: sum.splits)
  note ih = Cons.IH [OF rest Cons.prems(2)]
  let ?body = "takeWhile (\<lambda>l. \<not> is_section_header l) ls"
  show ?case
  proof (cases "is_section_header line")
    case True
    from step True obtain secs1 where sv: "save_item s = Inr secs1"
      and s1: "s1 = \<lparr>currentSection = Some i, currentContent = [line],
                    sectionName = drop 2 line, sections_of = secs1\<rparr>"
      by (auto simp: parse_line_def header_name split: sum.splits)
    have p1: "pending s1 ls n
                = (if drop 2 line = n then block_count ?body else 0) + section_count n ls"
      by (simp add: pending_def s1 block_count_def Let_def)
    have p0: "pending s (line # ls) n
                = (if currentSection s \<noteq> None \<and> currentContent s \<noteq> [] \<and> sectionName s = n
                   then 1 else 0)
                  + ((if drop 2 line = n then block_count ?body else 0) + section_count n ls)"
      using True
      by (cases "currentSection s") (auto simp: pending_def section_count_Cons)
    from ih save_item_count [OF sv, of n] show ?thesis
      unfolding p0 p1 by (simp add: s1)
  next
    case False
    have tw: "takeWhile (\<lambda>l. \<not> is_section_header l) (line # ls) = line # ?body"
      using False by simp
    have sc: "section_count n (line # ls) = section_count n ls"
      using False by (simp add: section_count_Cons)
    show ?thesis
    proof (cases "closes_item s line")
      case True
      then obtain c where c: "currentSection s = Some c" and sep: "is_separator line"
        and len: "length (currentContent s) > 1"
        by (auto simp: closes_item_def)
      from step False True obtain secs1 where sv: "save_item s = Inr secs1"
        and s1: "s1 = s\<lparr>sections_of := secs1, currentSection := Some (i + 1),
                        currentContent := []\<rparr>"
        by (auto simp: parse_line_def split: sum.splits)
      from len have ne: "currentContent s \<noteq> []"
        by auto
      have p1: "pending s1 ls n
                  = (if sectionName s = n
                     then closing_separators 0 ?body
                          + (if buffered_at_end 0 ?body = 0 then 0 else 1)
                     else 0) + section_count n ls"
        by (simp add: pending_def s1 Let_def)
      have p0: "pending s (line # ls) n
                  = (if sectionName s = n
                     then Suc (closing_separators 0 ?body)
                          + (if buffered_at_end 0 ?body = 0 then 0 else 1)
                     else 0) + section_count n ls"
        using c sep len False by (simp add: pending_def sc Let_def)
      from ih save_item_count [OF sv, of n] c ne show ?thesis
        unfolding p0 p1 by (simp add: s1)
    next
      case nc: False
      show ?thesis
      proof (cases "currentSection s")
        case None
        with step False nc have "s1 = s"
          by (simp add: parse_line_def)
        with ih None show ?thesis
          by (simp add: pending_def sc)
      next
        case (Some c)
        with step False nc have s1: "s1 = s\<lparr>currentContent := currentContent s @ [line]\<rparr>"
          by (simp add: parse_line_def)
        from nc Some have nsep: "\<not> (is_separator line \<and> length (currentContent s) > 1)"
          by (simp add: closes_item_def)
        have p1: "pending s1 ls n
                  = (if sectionName s = n
                     then closing_separators (Suc (length (currentContent s))) ?body
                          + (if buffered_at_end (Suc (length (currentContent s))) ?body = 0
                             then 0 else 1)
                     else 0) + section_count n ls"
          using Some by (simp add: pending_def s1 Let_def)
        have cl: "closing_separators (length (currentContent s)) (line # ?body)
                    = closing_separators (Suc (length (currentContent s))) ?body"
          and bf: "buffered_at_end (length (currentContent s)) (line # ?body)
                    = buffered_at_end (Suc (length (currentContent s))) ?body"
          using nsep by auto
        have p0: "pending s (line # ls) n = pending s1 ls n"
          unfolding p1 using Some False cl bf by (simp add: pending_def sc Let_def)
        from ih show ?thesis
          unfolding p0 by (simp add: s1)
      qed
    qed
  qed
qed

lemma parseDocumentation_count:
  assumes "parseDocumentation text = Inr secs"
  shows "length (section_items secs n) = section_count n (lines_of text)"
proof -
  from assms obtain s where p: "parse_lines 0 (lines_of text) initial_state = Inr s"
    and sv: "save_item s = Inr secs"
    by (auto simp: parseDocumentation_def split: sum.splits)
  from parse_count [OF p sv, of n] show ?thesis
    by (simp add: initial_state_def pending_def section_items_def)
qed


lemma save_item_total:
  assumes ok: "\<And>secs it m. Q m \<Longrightarrow> \<exists>x. push_item secs m it = Inr x"
    and "currentSection s \<noteq> None \<longrightarrow> Q (sectionName s)"
  shows "\<exists>secs. save_item s = Inr secs"
proof (cases "currentSection s")
  case None
  then show ?thesis
    by (simp add: save_item_def)
next
  case (Some c)
  with assms(2) have "Q (sectionName s)"
    by simp
  from ok [OF this] Some show ?thesis
    by (cases "currentContent s = []") (simp_all add: save_item_def)
qed

lemma parse_lines_total:
  assumes ok: "\<And>secs it m. Q m \<Longrightarrow> \<exists>x. push_item secs m it = Inr x"
  shows "\<forall>b \<in> set (blocks ls). Q (drop 2 (fst b))
    \<Longrightarrow> currentSection s \<noteq> None \<longrightarrow> Q (sectionName s)
    \<Longrightarrow> \<exists>s'. parse_lines i ls s = Inr s' \<and> (currentSection s' \<noteq> None \<longrightarrow> Q (sectionName s'))"
proof (induction ls arbitrary: i s)
  case Nil
  then show ?case by simp
next
  case (Cons line ls)
  from save_item_total [of Q s, OF ok Cons.prems(2)] obtain secs1 where sv: "save_item s = Inr secs1"
    by blast
  show ?case
  proof (cases "is_section_header line")
    case True
    define s1 where "s1 = \<lparr>currentSection = Some i, currentContent = [line],
                    sectionName = drop 2 line, sections_of = secs1\<rparr>"
    from True sv have step: "parse_line i line s = Inr s1"
      by (simp add: parse_line_def header_name s1_def)
    from Cons.prems(1) True have q: "Q (drop 2 line)" and rest: "\<forall>b \<in> set (blocks ls). Q (drop 2 (fst b))"
      by simp_all
    from q have "currentSection s1 \<noteq> None \<longrightarrow> Q (sectionName s1)"
      by (simp add: s1_def)
    from Cons.IH [OF rest this, of "Suc i"] step show ?thesis
      by simp
  next
    case False
    with Cons.prems(1) have rest: "\<forall>b \<in> set (blocks ls). Q (drop 2 (fst b))"
      by simp
    obtain s1 where step: "parse_line i line s = Inr s1"
      and q1: "currentSection s1 \<noteq> None \<longrightarrow> Q (sectionName s1)"
    proof (cases "closes_item s line")
      case True
      with False sv Cons.prems(2) that show ?thesis
        by (simp add: parse_line_def closes_item_def)
    next
      case nc: False
      show ?thesis
      proof (cases "currentSection s")
        case None
        with False nc have "parse_line i line s = Inr s"
          by (simp add: parse_line_def)
        with Cons.prems(2) that show ?thesis
          by blast
      next
        case (Some c)
        with False nc have "parse_line i line s = Inr (s\<lparr>currentContent := currentContent s @ [line]\<rparr>)"
          by (simp add: parse_line_def)
        moreover from Cons.prems(2) have
          "currentSection (s\<lparr>currentContent := currentContent s @ [line]\<rparr>) \<noteq> None
             \<longrightarrow> Q (sectionName (s\<lparr>currentContent := currentContent s @ [line]\<rparr>))"
          by simp
        ultimately show ?thesis
          using that by blast
      qed
    qed
    from Cons.IH [OF rest q1, of "Suc i"] step show ?thesis
      by simp
  qed
qed

lemma parseDocumentation_total:
  assumes "\<forall>b \<in> set (blocks (lines_of text)). drop 2 (fst b) \<noteq> ''constructor''"
  shows "\<exists>secs. parseDocumentation text = Inr secs"
proof -
  have ok: "\<exists>x. push_item secs m it = Inr x" if "m \<noteq> ''constructor''" for secs it m
    using push_item_ok [OF that] by blast
  have "currentSection initial_state \<noteq> None \<longrightarrow> sectionName initial_state \<noteq> ''constructor''"
    by (simp add: initial_state_def)
  from parse_lines_total [of "\<lambda>m. m \<noteq> ''constructor''", OF ok assms this]
  obtain s' where p: "parse_lines 0 (lines_of text) initial_state = Inr s'"
    and q: "currentSection s' \<noteq> None \<longrightarrow> sectionName s' \<noteq> ''constructor''"
    by blast
  from save_item_total [of "\<lambda>m. m \<noteq> ''constructor''" s', OF ok q]
  obtain secs where "save_item s' = Inr secs"
    by blast
  with p show ?thesis
    by (simp add: parseDocumentation_def)
qed

text \<open>
  C7, as stated, fails. In \<open>example_corpus_trailing\<close> the section ends with a separator
  line that closes the one item, and no item follows: one item, where the count of the
  specification is two. In \<open>example_corpus\<close> the section has two separator lines after
  content, each with a content line buffered before it, and the count of the
  specification is three; the code produces two items, because the second separator
  finds one line in the buffer, not more than one, and is kept as content.
\<close>

theorem segmentation_count_differs:
  "parseDocumentation example_corpus_trailing =
     Inr [(''guides'', [\<lparr>content = ''# guides\<newline>intro'', startLine = 0\<rparr>])]
   \<and> spec_item_count (tl (lines_of example_corpus_trailing)) = 2
   \<and> parseDocumentation example_corpus =
     Inr [(''guides'',
           [\<lparr>content = ''# guides\<newline>intro'', startLine = 0\<rparr>,
            \<lparr>content = ''one\<newline>---\<newline>two'', startLine = 3\<rparr>])]
   \<and> spec_item_count (tl (lines_of example_corpus)) = 3"
  by code_simp

text \<open>
  C7 (amended): after segmentation no section name and no item is repeated, and an item
  belongs to one section only; a separator line closes the current item whenever at
  least two lines are in the buffer of the current item (the section header is the
  first line in the buffer of the first item of its section); and for every corpus and
  every section name, the number of items of the section is the sum, over the blocks of
  the corpus whose header has that name (a block is a header line with the lines up to
  the next header), of the number of separator lines that closed an item in the block,
  plus one for every block that does not end on such a separator. Lines before the
  first header belong to no section. The segmentation returns for every corpus without
  a section named \<open>constructor\<close>, under which saving an item throws.
\<close>

theorem segmentation_items:
  "(parseDocumentation text = Inr secs \<longrightarrow>
      distinct (map fst secs) \<and> distinct (all_items secs)
      \<and> (\<forall>it n n'. it \<in> set (section_items secs n) \<and> it \<in> set (section_items secs n')
             \<longrightarrow> n = n')
      \<and> length (section_items secs m) = section_count m (lines_of text))
   \<and> (is_separator line \<and> length (currentContent s) \<ge> 2 \<and> currentSection s = Some c
        \<and> sectionName s \<noteq> ''constructor'' \<longrightarrow>
      parse_line i line s =
        Inr \<lparr>currentSection = Some (i + 1), currentContent = [],
             sectionName = sectionName s,
             sections_of = append_item (sections_of s) (sectionName s)
               \<lparr>content = join_lines (currentContent s), startLine = c\<rparr>\<rparr>)
   \<and> ((\<forall>b \<in> set (blocks (lines_of text')). drop 2 (fst b) \<noteq> ''constructor'') \<longrightarrow>
      (\<exists>secs'. parseDocumentation text' = Inr secs'))"
proof (intro conjI impI allI)
  assume p: "parseDocumentation text = Inr secs"
  from parseDocumentation_distinct [OF p] show "distinct (map fst secs)"
    by simp
  from parseDocumentation_distinct [OF p] show d: "distinct (all_items secs)"
    by (simp add: distinct_map)
  from p show "length (section_items secs m) = section_count m (lines_of text)"
    by (rule parseDocumentation_count)
  fix it n n'
  assume "it \<in> set (section_items secs n) \<and> it \<in> set (section_items secs n')"
  with d show "n = n'"
    using item_in_one_section by blast
next
  assume a: "is_separator line \<and> length (currentContent s) \<ge> 2 \<and> currentSection s = Some c
        \<and> sectionName s \<noteq> ''constructor''"
  then have sep: "is_separator line" and len: "length (currentContent s) \<ge> 2"
    and cs: "currentSection s = Some c" and nm: "sectionName s \<noteq> ''constructor''"
    by blast+
  from sep have nh: "\<not> is_section_header line"
    by (rule separator_not_header)
  from sep len cs have cl: "closes_item s line"
    by (simp add: closes_item_def)
  from len have ne: "currentContent s \<noteq> []"
    by auto
  have sv: "save_item s = Inr (append_item (sections_of s) (sectionName s)
               \<lparr>content = join_lines (currentContent s), startLine = c\<rparr>)"
    using cs ne by (simp add: save_item_def push_item_ok [OF nm])
  show "parse_line i line s =
        Inr \<lparr>currentSection = Some (i + 1), currentContent = [],
             sectionName = sectionName s,
             sections_of = append_item (sections_of s) (sectionName s)
               \<lparr>content = join_lines (currentContent s), startLine = c\<rparr>\<rparr>"
    using nh cl sv by (simp add: parse_line_def)
next
  assume "\<forall>b \<in> set (blocks (lines_of text')). drop 2 (fst b) \<noteq> ''constructor''"
  then show "\<exists>secs'. parseDocumentation text' = Inr secs'"
    by (rule parseDocumentation_total)
qed

theorem segmentation_items_witness:
  "parseDocumentation example_corpus_sections =
     Inr [(''guides'',
           [\<lparr>content = ''# guides\<newline>intro'', startLine = 1\<rparr>,
            \<lparr>content = ''one\<newline>---\<newline>two'', startLine = 4\<rparr>,
            \<lparr>content = ''# guides\<newline>more'', startLine = 9\<rparr>]),
          (''api-docs'', [\<lparr>content = ''# api-docs\<newline>x'', startLine = 7\<rparr>])]
   \<and> section_count ''guides'' (lines_of example_corpus_sections) = 3
   \<and> section_count ''api-docs'' (lines_of example_corpus_sections) = 1
   \<and> (is_separator ''---''
        \<and> length (currentContent \<lparr>currentSection = Some 1, currentContent = [''# guides'', ''intro''],
                     sectionName = ''guides'', sections_of = []\<rparr>) \<ge> 2)
   \<and> parse_line 3 ''---''
        \<lparr>currentSection = Some 1, currentContent = [''# guides'', ''intro''],
           sectionName = ''guides'', sections_of = []\<rparr>
       = Inr \<lparr>currentSection = Some 4, currentContent = [], sectionName = ''guides'',
              sections_of = [(''guides'', [\<lparr>content = ''# guides\<newline>intro'', startLine = 1\<rparr>])]\<rparr>
   \<and> map (\<lambda>b. drop 2 (fst b)) (blocks (lines_of example_corpus_sections))
       = [''guides'', ''api-docs'', ''guides'']"
proof -
  define secs where "secs = [(''guides'',
           [\<lparr>content = ''# guides\<newline>intro'', startLine = 1\<rparr>,
            \<lparr>content = ''one\<newline>---\<newline>two'', startLine = 4\<rparr>,
            \<lparr>content = ''# guides\<newline>more'', startLine = 9\<rparr>]),
          (''api-docs'', [\<lparr>content = ''# api-docs\<newline>x'', startLine = 7\<rparr>])]"
  define s0 where "s0 = \<lparr>currentSection = Some 1, currentContent = [''# guides'', ''intro''],
                     sectionName = ''guides'', sections_of = []\<rparr>"
  have h1: "parseDocumentation example_corpus_sections = Inr secs"
    unfolding secs_def by code_simp
  have h2: "is_separator ''---'' \<and> length (currentContent s0) \<ge> 2 \<and> currentSection s0 = Some 1
        \<and> sectionName s0 \<noteq> ''constructor''"
    unfolding s0_def by (simp add: is_separator_def)
  have h4: "map (\<lambda>b. drop 2 (fst b)) (blocks (lines_of example_corpus_sections))
       = [''guides'', ''api-docs'', ''guides'']"
    by code_simp
  have h3: "\<forall>b \<in> set (blocks (lines_of example_corpus_sections)). drop 2 (fst b) \<noteq> ''constructor''"
    by code_simp
  have e: "section_count ''guides'' (lines_of example_corpus_sections) = 3"
    "section_count ''api-docs'' (lines_of example_corpus_sections) = 1"
    "length (section_items secs ''guides'') = 3"
    unfolding secs_def by code_simp+
  have v: "append_item (sections_of s0) (sectionName s0)
              \<lparr>content = join_lines (currentContent s0), startLine = 1\<rparr>
           = [(''guides'', [\<lparr>content = ''# guides\<newline>intro'', startLine = 1\<rparr>])]"
    "sectionName s0 = ''guides''" "3 + 1 = (4::nat)"
    unfolding s0_def by simp_all
  from segmentation_items [of example_corpus_sections secs "''guides''" "''---''" s0 1 3
         example_corpus_sections] h1 h2 h3
  have "length (section_items secs ''guides'') = section_count ''guides'' (lines_of example_corpus_sections)"
    and "parse_line 3 ''---'' s0 =
        Inr \<lparr>currentSection = Some (3 + 1), currentContent = [],
             sectionName = sectionName s0,
             sections_of = append_item (sections_of s0) (sectionName s0)
               \<lparr>content = join_lines (currentContent s0), startLine = 1\<rparr>\<rparr>"
    by blast+
  with h1 h2 h4 e show ?thesis
    unfolding v by (simp only: secs_def s0_def) simp
qed

section \<open>Properties of the best practices\<close>



lemma filter_terms_single:
  "term_matches singular plural c t = Inr b \<Longrightarrow>
   filter_terms singular plural c [t] = Inr (if b then [t] else [])"
  by simp


















section \<open>Ranking of a verbatim occurrence against scattered words\<close>


lemma check_terms_all_matched:
  "\<forall>t \<in> set ts. has_match rx c t \<Longrightarrow>
     check_terms rx cfg c tlow ts (sc, mt, tp)
       = Inr (sc + terms_score rx cfg c tlow ts, mt @ ts, tp @ first_positions c ts)"
proof (induction ts arbitrary: sc mt tp)
  case Nil
  then show ?case
    by (simp add: terms_score_def first_positions_def)
next
  case (Cons t ts)
  from Cons.prems obtain n where n: "rx t c = Inr n" "n > 0"
    by (auto simp: has_match_def split: sum.splits)
  have ts: "terms_score rx cfg c tlow (t # ts)
              = (if str_includes tlow t then TITLE_MATCH_BONUS cfg else 0)
                + int n * TERM_MATCH_WEIGHT cfg + terms_score rx cfg c tlow ts"
    using n by (simp add: terms_score_def term_score_def)
  have fp: "first_positions c (t # ts)
              = (case indexOf c t of Some pos \<Rightarrow> [(t, pos)] | None \<Rightarrow> []) @ first_positions c ts"
    by (simp add: first_positions_def)
  from Cons.prems have "\<forall>t \<in> set ts. has_match rx c t"
    by simp
  note ih = Cons.IH [OF this]
  show ?case
    using n by (simp add: ih ts fp split: option.splits)
qed

lemma score_item_adjacent:
  assumes "tf (content A) = Inr tA"
    and "\<forall>t \<in> set (words_of (toLowerCase query)). has_match rx (toLowerCase (content A)) t"
    and "str_includes (toLowerCase (content A)) (toLowerCase query)"
  shows "score_item rx tf cfg query A =
           Inr (tA, EXACT_PHRASE_BONUS cfg
                    + terms_score rx cfg (toLowerCase (content A)) (toLowerCase tA)
                        (words_of (toLowerCase query)),
                toLowerCase query # words_of (toLowerCase query),
                first_positions (toLowerCase (content A)) (words_of (toLowerCase query)))"
  using assms(1,3)
  by (simp add: score_item_def Let_def check_terms_all_matched [OF assms(2)] all_terms_bonus_def)

lemma score_item_scattered:
  assumes "tf (content B) = Inr tB"
    and "\<forall>t \<in> set (words_of (toLowerCase query)). has_match rx (toLowerCase (content B)) t"
    and "\<not> str_includes (toLowerCase (content B)) (toLowerCase query)"
    and "PROXIMITY_THRESHOLD cfg
           \<le> spread_of (first_positions (toLowerCase (content B)) (words_of (toLowerCase query)))"
  shows "\<exists>tp. score_item rx tf cfg query B =
           Inr (tB, ALL_TERMS_BONUS cfg
                    + terms_score rx cfg (toLowerCase (content B)) (toLowerCase tB)
                        (words_of (toLowerCase query)),
                words_of (toLowerCase query), tp)"
  using assms(1,3,4)
  by (simp add: score_item_def Let_def check_terms_all_matched [OF assms(2)] all_terms_bonus_def
      spread_of_def)

lemma scan_items_member:
  "scan_items rx tf cfg query n its = Inr rs \<Longrightarrow> it \<in> set its
   \<Longrightarrow> score_item rx tf cfg query it = Inr (t, acc) \<Longrightarrow> admitted cfg acc
   \<Longrightarrow> result_of query n t acc \<in> set rs"
proof (induction its arbitrary: rs)
  case Nil
  then show ?case by simp
next
  case (Cons x xs)
  from Cons.prems(1) obtain t' acc' rs' where
    s: "score_item rx tf cfg query x = Inr (t', acc')"
    and r: "scan_items rx tf cfg query n xs = Inr rs'"
    and rs: "rs = (if admitted cfg acc' then result_of query n t' acc' # rs' else rs')"
    by (auto split: sum.splits prod.splits)
  show ?case
  proof (cases "it = x")
    case True
    with s Cons.prems(3,4) rs show ?thesis
      by simp
  next
    case False
    with Cons.prems(2) have "it \<in> set xs"
      by simp
    from Cons.IH [OF r this Cons.prems(3,4)] rs show ?thesis
      by simp
  qed
qed

lemma scan_sections_member:
  "scan_sections rx tf cfg secs query ns = Inr rs \<Longrightarrow> n \<in> set ns
   \<Longrightarrow> it \<in> set (section_items secs n)
   \<Longrightarrow> score_item rx tf cfg query it = Inr (t, acc) \<Longrightarrow> admitted cfg acc
   \<Longrightarrow> result_of query n t acc \<in> set rs"
proof (induction ns arbitrary: rs)
  case Nil
  then show ?case by simp
next
  case (Cons m ms)
  from Cons.prems(1) obtain rs1 rs2 where
    a: "scan_items rx tf cfg query m (section_items secs m) = Inr rs1"
    and b: "scan_sections rx tf cfg secs query ms = Inr rs2"
    and rs: "rs = rs1 @ rs2"
    by (auto split: sum.splits)
  show ?case
  proof (cases "n = m")
    case True
    with scan_items_member [OF a _ Cons.prems(4,5)] Cons.prems(3) rs show ?thesis
      by simp
  next
    case False
    with Cons.prems(2) have "n \<in> set ms"
      by simp
    from Cons.IH [OF b this Cons.prems(3,4,5)] rs show ?thesis
      by simp
  qed
qed

lemma higher_score_comes_first:
  assumes "sorted_wrt (\<lambda>a b. score a \<ge> score b) xs" and "x \<in> set xs" and "j < length xs"
    and "score (xs ! j) < score x"
  shows "\<exists>i<j. xs ! i = x"
proof -
  from assms(2) obtain i where i: "i < length xs" "xs ! i = x"
    by (auto simp: in_set_conv_nth)
  have "\<not> j < i"
  proof
    assume "j < i"
    from sorted_wrt_nth_less [OF assms(1) this i(1)] have "score (xs ! j) \<ge> score (xs ! i)" .
    with assms(4) i(2) show False
      by simp
  qed
  moreover have "i \<noteq> j"
    using assms(4) i(2) by auto
  ultimately have "i < j"
    by simp
  with i(2) show ?thesis
    by blast
qed


text \<open>
  C4, as stated, fails: the score of an item grows with the number of matches of each
  term. Under \<open>sample_config\<close> and for the query \<open>foo bar\<close>, the item \<open>foo bar\<close> is
  ranked below an item in which \<open>foo\<close> and the first \<open>bar\<close> are 103 characters apart
  (more than the threshold of 100) and \<open>bar\<close> occurs twenty times.
\<close>

theorem scattered_item_ranked_first:
  "search RegExp_count extractTitle sample_config
     [(''guides'', [example_adjacent, example_scattered 20])] ''foo bar'' ''all'' 5
   = Inr [\<lparr>title = ''Untitled'', category = ''Guides & Tutorials'', score = 125,
            matchedTerms = 2, totalTerms = 2\<rparr>,
          \<lparr>title = ''Untitled'', category = ''Guides & Tutorials'', score = 60,
            matchedTerms = 3, totalTerms = 2\<rparr>]
   \<and> score_item RegExp_count extractTitle sample_config ''foo bar'' example_adjacent
       = Inr (''Untitled'', 60, [''foo bar'', ''foo'', ''bar''], [(''foo'', 0), (''bar'', 4)])
   \<and> str_includes (toLowerCase (content example_adjacent)) ''foo bar''
   \<and> \<not> str_includes (toLowerCase (content (example_scattered 20))) ''foo bar''
   \<and> first_positions (toLowerCase (content (example_scattered 20))) [''foo'', ''bar'']
       = [(''foo'', 0), (''bar'', 103)]"
  by code_simp

text \<open>
  C4 (amended): for a query of two or more words, let item A contain the whole
  lower-cased query and a match of every query word, and let item B have a match of
  every query word, not contain the whole query, and have its first occurrences spread
  over at least the proximity threshold. Whenever \<open>EXACT_PHRASE_BONUS\<close> plus the term and
  title score of A exceeds \<open>ALL_TERMS_BONUS\<close> plus the term and title score of B, the
  score of A is the greater one and, in the list that \<open>search\<close> returns, the result of B
  is preceded by the result of A.
\<close>

theorem adjacent_ranks_above_scattered:
  assumes "terms = words_of (toLowerCase query)" and "length terms \<ge> 2"
    and "nA \<in> set (sectionsToSearch secs cat)" and "A \<in> set (section_items secs nA)"
    and "tf (content A) = Inr tA"
    and "nB \<in> set (sectionsToSearch secs cat)" and "B \<in> set (section_items secs nB)"
    and "tf (content B) = Inr tB"
    and "\<forall>t \<in> set terms. has_match rx (toLowerCase (content A)) t"
    and "\<forall>t \<in> set terms. has_match rx (toLowerCase (content B)) t"
    and "str_includes (toLowerCase (content A)) (toLowerCase query)"
    and "\<not> str_includes (toLowerCase (content B)) (toLowerCase query)"
    and "PROXIMITY_THRESHOLD cfg \<le> spread_of (first_positions (toLowerCase (content B)) terms)"
    and "ALL_TERMS_BONUS cfg
           + terms_score rx cfg (toLowerCase (content B)) (toLowerCase tB) terms
         < EXACT_PHRASE_BONUS cfg
           + terms_score rx cfg (toLowerCase (content A)) (toLowerCase tA) terms"
    and "search rx tf cfg secs query cat limit = Inr rs"
  shows "\<exists>accA accB.
           score_item rx tf cfg query A = Inr (tA, accA)
           \<and> score_item rx tf cfg query B = Inr (tB, accB)
           \<and> fst accB < fst accA
           \<and> (\<forall>j<length rs. rs ! j = result_of query nB tB accB
                  \<longrightarrow> (\<exists>i<j. rs ! i = result_of query nA tA accA))"
proof -
  define accA where "accA = (EXACT_PHRASE_BONUS cfg
      + terms_score rx cfg (toLowerCase (content A)) (toLowerCase tA) terms,
      toLowerCase query # terms, first_positions (toLowerCase (content A)) terms)"
  have sA: "score_item rx tf cfg query A = Inr (tA, accA)"
    unfolding accA_def assms(1)
    by (rule score_item_adjacent) (use assms in simp_all)
  have "\<exists>tp. score_item rx tf cfg query B =
           Inr (tB, ALL_TERMS_BONUS cfg
                    + terms_score rx cfg (toLowerCase (content B)) (toLowerCase tB)
                        (words_of (toLowerCase query)),
                words_of (toLowerCase query), tp)"
    by (rule score_item_scattered) (use assms in simp_all)
  then obtain tp where sB: "score_item rx tf cfg query B = Inr (tB, accB)"
    if "accB = (ALL_TERMS_BONUS cfg
                  + terms_score rx cfg (toLowerCase (content B)) (toLowerCase tB) terms,
                terms, tp)" for accB
    unfolding assms(1) by blast
  define accB where "accB = (ALL_TERMS_BONUS cfg
                  + terms_score rx cfg (toLowerCase (content B)) (toLowerCase tB) terms,
                terms, tp)"
  note sB = sB [OF accB_def]
  have lt: "fst accB < fst accA"
    using assms(14) by (simp add: accA_def accB_def)
  let ?rA = "result_of query nA tA accA" and ?rB = "result_of query nB tB accB"
  have scA: "score ?rA = fst accA" and scB: "score ?rB = fst accB"
    by (simp_all add: result_of_def accA_def accB_def)
  from search_Inr [OF assms(15)] obtain results where
    sc: "scan rx tf cfg secs query cat = Inr results"
    and rs: "rs = slice0 (sort_results results) limit"
    by blast
  obtain k where k: "rs = take k (sort_results results)"
    using rs slice0_take by blast
  have "\<exists>i<j. rs ! i = ?rA" if j: "j < length rs" and eq: "rs ! j = ?rB" for j
  proof -
    from j eq have "?rB \<in> set rs"
      by (metis nth_mem)
    then have "?rB \<in> set results"
      using rs set_slice0 [of "sort_results results" limit] by (auto simp: set_sort_results)
    with sc have "MIN_SCORE cfg \<le> score ?rB"
      unfolding scan_def by (blast dest: scan_sections_admitted)
    with lt scA scB have "MIN_SCORE cfg \<le> fst accA"
      by simp
    moreover have "length (fst (snd accA)) \<ge> 2"
      using assms(2) by (simp add: accA_def)
    ultimately have adm: "admitted cfg accA"
      by (cases accA) (simp add: admitted_def)
    have "?rA \<in> set results"
      using sc unfolding scan_def
      by (rule scan_sections_member [OF _ assms(3,4) sA adm])
    then have mem: "?rA \<in> set (sort_results results)"
      by (simp add: set_sort_results)
    from j k have j': "j < length (sort_results results)" and jk: "j < k"
      by simp_all
    from eq k j have "sort_results results ! j = ?rB"
      by simp
    with lt scA scB have "score (sort_results results ! j) < score ?rA"
      by simp
    from higher_score_comes_first [OF sorted_sort_results mem j' this]
    obtain i where "i < j" and "sort_results results ! i = ?rA"
      by blast
    with jk k have "rs ! i = ?rA"
      by simp
    with \<open>i < j\<close> show ?thesis
      by blast
  qed
  with sA sB lt show ?thesis
    by blast
qed


theorem adjacent_ranks_above_scattered_witness:
  "search RegExp_count extractTitle sample_config
     [(''guides'', [example_scattered 1, example_adjacent])] ''foo bar'' ''all'' 5
   = Inr [\<lparr>title = ''Untitled'', category = ''Guides & Tutorials'', score = 60,
            matchedTerms = 3, totalTerms = 2\<rparr>,
          \<lparr>title = ''Untitled'', category = ''Guides & Tutorials'', score = 30,
            matchedTerms = 2, totalTerms = 2\<rparr>]
   \<and> (\<exists>accA accB.
         score_item RegExp_count extractTitle sample_config ''foo bar'' example_adjacent
           = Inr (''Untitled'', accA)
         \<and> score_item RegExp_count extractTitle sample_config ''foo bar'' (example_scattered 1)
           = Inr (''Untitled'', accB)
         \<and> fst accB < fst accA)"
proof -
  define secs where "secs = [(''guides'', [example_scattered 1, example_adjacent])]"
  have h: "[''foo'', ''bar''] = words_of (toLowerCase ''foo bar'')"
    "length [''foo'', ''bar''] \<ge> 2"
    "''guides'' \<in> set (sectionsToSearch secs ''all'')"
    "example_adjacent \<in> set (section_items secs ''guides'')"
    "extractTitle (content example_adjacent) = Inr ''Untitled''"
    "''guides'' \<in> set (sectionsToSearch secs ''all'')"
    "example_scattered 1 \<in> set (section_items secs ''guides'')"
    "extractTitle (content (example_scattered 1)) = Inr ''Untitled''"
    "\<forall>t \<in> set [''foo'', ''bar'']. has_match RegExp_count (toLowerCase (content example_adjacent)) t"
    "\<forall>t \<in> set [''foo'', ''bar'']. has_match RegExp_count (toLowerCase (content (example_scattered 1))) t"
    "str_includes (toLowerCase (content example_adjacent)) (toLowerCase ''foo bar'')"
    "\<not> str_includes (toLowerCase (content (example_scattered 1))) (toLowerCase ''foo bar'')"
    "PROXIMITY_THRESHOLD sample_config
       \<le> spread_of (first_positions (toLowerCase (content (example_scattered 1))) [''foo'', ''bar''])"
    "ALL_TERMS_BONUS sample_config
       + terms_score RegExp_count sample_config (toLowerCase (content (example_scattered 1)))
           (toLowerCase ''Untitled'') [''foo'', ''bar'']
     < EXACT_PHRASE_BONUS sample_config
       + terms_score RegExp_count sample_config (toLowerCase (content example_adjacent))
           (toLowerCase ''Untitled'') [''foo'', ''bar'']"
    unfolding secs_def by code_simp+
  have r: "search RegExp_count extractTitle sample_config secs ''foo bar'' ''all'' 5
   = Inr [\<lparr>title = ''Untitled'', category = ''Guides & Tutorials'', score = 60,
            matchedTerms = 3, totalTerms = 2\<rparr>,
          \<lparr>title = ''Untitled'', category = ''Guides & Tutorials'', score = 30,
            matchedTerms = 2, totalTerms = 2\<rparr>]"
    unfolding secs_def by code_simp
  from adjacent_ranks_above_scattered [OF h r]
  have "\<exists>accA accB.
         score_item RegExp_count extractTitle sample_config ''foo bar'' example_adjacent
           = Inr (''Untitled'', accA)
         \<and> score_item RegExp_count extractTitle sample_config ''foo bar'' (example_scattered 1)
           = Inr (''Untitled'', accB)
         \<and> fst accB < fst accA"
    by blast
  with r show ?thesis
    unfolding secs_def by blast
qed

end
